theory Spec2Isabelle
  imports Main "HOL-Library.Sublist"
begin

section \<open>Data model of \<^verbatim>\<open>src/app/components/flashcards.tsx\<close>\<close>

text \<open>
  A JavaScript string is modelled as a \<^typ>\<open>string\<close>: every \<^typ>\<open>char\<close> stands for one
  UTF-16 code unit in the range 0..255. A JavaScript number that holds an index or a
  counter is an \<^typ>\<open>int\<close>.
\<close>

record Flashcard =
  question :: string
  answer :: string

record StoredSet =
  subject :: string
  flashcards :: "Flashcard list"

text \<open>
  The state cells of the \<^verbatim>\<open>Flashcards\<close> component (one field per \<^verbatim>\<open>useState\<close>).
  The cells \<^verbatim>\<open>subject\<close> and \<^verbatim>\<open>flashcards\<close> are named \<open>st_subject\<close> and
  \<open>st_flashcards\<close>, since the fields of \<^typ>\<open>StoredSet\<close> already carry those names.
  The cell \<^verbatim>\<open>lastAnimatedCircle\<close>, which only selects a style class, is left out.
\<close>

record ui_state =
  st_subject :: string
  st_flashcards :: "Flashcard list"
  loading :: bool
  error :: "string option"
  current :: int
  showAnswer :: bool
  showGenerator :: bool
  addingMore :: bool
  storedSets :: "StoredSet list"
  activeSubject :: "string option"
  switchAnimKey :: int
  lastCurrent :: int
  switching :: bool

section \<open>Strings: white space, trimming, splitting, decimal numbers\<close>

text \<open>The characters of \<^verbatim>\<open>\s\<close> (and of \<^verbatim>\<open>trim\<close>) among the code units 0..255.\<close>

definition is_space :: "char \<Rightarrow> bool" where
  "is_space c = (c \<in> {CHR 0x09, CHR 0x0A, CHR 0x0B, CHR 0x0C, CHR 0x0D, CHR 0x20, CHR 0xA0})"

definition is_digit :: "char \<Rightarrow> bool" where
  "is_digit c = (c \<in> set ''0123456789'')"

definition trim :: "string \<Rightarrow> string" where
  "trim s = rev (dropWhile is_space (rev (dropWhile is_space s)))"

text \<open>
  \<^verbatim>\<open>s.split(/\s+/)\<close>: the pieces between maximal runs of white space, the empty
  pieces at either end included.
\<close>

function split_ws :: "string \<Rightarrow> string list" where
  "split_ws s =
     (let tok = takeWhile (\<lambda>c. \<not> is_space c) s; rest = dropWhile (\<lambda>c. \<not> is_space c) s
      in if rest = [] then [tok] else tok # split_ws (dropWhile is_space rest))"
  by pat_completeness auto
termination
proof (relation "measure length")
  fix s tok rest
  assume r: "rest = dropWhile (\<lambda>c. \<not> is_space c) s" and ne: "rest \<noteq> []"
  from ne obtain x xs where xs: "rest = x # xs" by (cases rest) auto
  from ne have "\<not> \<not> is_space (hd rest)" unfolding r by (rule hd_dropWhile)
  with xs have "is_space x" by simp
  with xs have "length (dropWhile is_space rest) \<le> length xs"
    by (simp add: length_dropWhile_le)
  moreover have "length rest \<le> length s"
    using r by (simp add: length_dropWhile_le)
  ultimately show "(dropWhile is_space rest, s) \<in> measure length"
    using xs by simp
qed simp

declare split_ws.simps [simp del]

text \<open>Decimal digits: \<^verbatim>\<open>parseInt(ds, 10)\<close> on a run of digits, and the digits of a number.\<close>

definition digit_value :: "char \<Rightarrow> int" where
  "digit_value c = int (of_char c) - 48"

definition digit_char :: "int \<Rightarrow> char" where
  "digit_char d = ''0123456789'' ! nat d"

text \<open>
  \<^verbatim>\<open>parseInt\<close> reads the longest run of digits at the front; with none it yields
  \<^verbatim>\<open>NaN\<close>, here \<^const>\<open>None\<close>. Its argument in this program is always the capture of
  \<^verbatim>\<open>\d+\<close>, so signs and leading blanks are left out. The value is the number the digits
  denote. The program holds it in a double, which is that same number as long as it is
  below \<open>2 ^ 53\<close> (\<open>exactly_held\<close>); the model uses the value only then, see
  \<open>getUniqueSubjectName\<close>.
\<close>

definition parseInt :: "string \<Rightarrow> int option" where
  "parseInt s =
     (let ds = takeWhile is_digit s
      in if ds = [] then None else Some (foldl (\<lambda>acc d. 10 * acc + digit_value d) 0 ds))"

definition exactly_held :: "int \<Rightarrow> bool" where
  "exactly_held n = (n < 2 ^ 53)"

function digits :: "int \<Rightarrow> string" where
  "digits n = (if n < 10 then [digit_char n] else digits (n div 10) @ [digit_char (n mod 10)])"
  by pat_completeness auto
termination
  by (relation "measure nat") auto

declare digits.simps [simp del]

text \<open>
  The text of a whole number inside a template literal: its decimal digits. This is what
  the program prints for the numbers up to \<open>2 ^ 53\<close>, the only ones the model prints.
\<close>

definition number_text :: "int \<Rightarrow> string" where
  "number_text n = (if n < 0 then CHR ''-'' # digits (- n) else digits n)"

section \<open>Regular expressions, by backtracking\<close>

text \<open>
  The constructs that the two patterns of the program use. A match is searched the way
  the JavaScript matcher does it: alternatives and repetitions are tried in their order of
  priority, and the first way that lets the rest of the pattern succeed is taken. The rest
  of the pattern is the continuation \<open>k\<close>.
\<close>

datatype cls = Space | Digit | AnyChar

fun in_cls :: "cls \<Rightarrow> char \<Rightarrow> bool" where
  "in_cls Space c = is_space c"
| "in_cls Digit c = is_digit c"
| "in_cls AnyChar c = True"

datatype rx =
    Lit string
  | Star cls
  | Plus cls
  | PlusLazy cls
  | Opt rx
  | Group nat rx
  | Seq rx rx
  | Alt rx rx
  | Lookahead rx
  | End

type_synonym captures = "nat \<rightharpoonup> string"

fun rmatch :: "rx \<Rightarrow> string \<Rightarrow> captures \<Rightarrow> (string \<Rightarrow> captures \<Rightarrow> (string \<times> captures) option)
    \<Rightarrow> (string \<times> captures) option" where
  "rmatch (Lit l) s c k = (if prefix l s then k (drop (length l) s) c else None)"
| "rmatch (Star cl) [] c k = k [] c"
| "rmatch (Star cl) (x # xs) c k =
     (if in_cls cl x
      then (case rmatch (Star cl) xs c k of Some r \<Rightarrow> Some r | None \<Rightarrow> k (x # xs) c)
      else k (x # xs) c)"
| "rmatch (Plus cl) [] c k = None"
| "rmatch (Plus cl) (x # xs) c k = (if in_cls cl x then rmatch (Star cl) xs c k else None)"
| "rmatch (PlusLazy cl) [] c k = None"
| "rmatch (PlusLazy cl) (x # xs) c k =
     (if in_cls cl x
      then (case k xs c of Some r \<Rightarrow> Some r | None \<Rightarrow> rmatch (PlusLazy cl) xs c k)
      else None)"
| "rmatch (Opt r) s c k = (case rmatch r s c k of Some m \<Rightarrow> Some m | None \<Rightarrow> k s c)"
| "rmatch (Group n r) s c k =
     rmatch r s c (\<lambda>s' c'. k s' (c'(n \<mapsto> take (length s - length s') s)))"
| "rmatch (Seq r1 r2) s c k = rmatch r1 s c (\<lambda>s' c'. rmatch r2 s' c' k)"
| "rmatch (Alt r1 r2) s c k = (case rmatch r1 s c k of Some m \<Rightarrow> Some m | None \<Rightarrow> rmatch r2 s c k)"
| "rmatch (Lookahead r) s c k =
     (case rmatch r s c (\<lambda>s' c'. Some (s', c')) of Some (s', c') \<Rightarrow> k s c' | None \<Rightarrow> None)"
| "rmatch End s c k = (if s = [] then k s c else None)"

text \<open>One attempt at the front of \<open>s\<close>: the text left after the match, and the captures.\<close>

definition match_here :: "rx \<Rightarrow> string \<Rightarrow> (string \<times> captures) option" where
  "match_here r s = rmatch r s Map.empty (\<lambda>s' c. Some (s', c))"

text \<open>\<^verbatim>\<open>regex.exec\<close> from \<^verbatim>\<open>lastIndex\<close> on: the first position at which an attempt succeeds.\<close>

fun exec :: "rx \<Rightarrow> string \<Rightarrow> (string \<times> captures) option" where
  "exec r [] = match_here r []"
| "exec r (x # xs) =
     (case match_here r (x # xs) of Some m \<Rightarrow> Some m | None \<Rightarrow> exec r xs)"

section \<open>\<^verbatim>\<open>parseFlashcards\<close>\<close>

text \<open>The pattern \<^verbatim>\<open>/Q:\s*([\s\S]+?)\s*A:\s*([\s\S]+?)(?=Q:|$)/g\<close>.\<close>

definition flashcard_rx :: rx where
  "flashcard_rx =
     Seq (Lit ''Q:'') (Seq (Star Space) (Seq (Group 1 (PlusLazy AnyChar)) (Seq (Star Space)
       (Seq (Lit ''A:'') (Seq (Star Space) (Seq (Group 2 (PlusLazy AnyChar))
         (Lookahead (Alt (Lit ''Q:'') End))))))))"

text \<open>
  The same pattern in parts: the answer with the look-ahead that ends it, the marker
  \<^verbatim>\<open>\s*A:\s*\<close> before it, and the question before that.
\<close>

definition answer_rx :: rx where
  "answer_rx = Seq (Group 2 (PlusLazy AnyChar)) (Lookahead (Alt (Lit ''Q:'') End))"

definition marker_rx :: rx where
  "marker_rx = Seq (Star Space) (Seq (Lit ''A:'') (Seq (Star Space) answer_rx))"

definition question_rx :: rx where
  "question_rx = Seq (Group 1 (PlusLazy AnyChar)) marker_rx"

text \<open>
  The texts that the parts accept, said without the matcher. A unit stands at the front of a
  text that begins with \<^verbatim>\<open>Q:\<close> and goes on with at least one character, an
  \<^verbatim>\<open>A:\<close> and at least one character more. A question follows where there is at least
  one character and then such an \<^verbatim>\<open>A:\<close>; an answer follows where there is only white
  space before such an \<^verbatim>\<open>A:\<close>.
\<close>

definition unit_at_front :: "string \<Rightarrow> bool" where
  "unit_at_front s = (\<exists>x y. s = ''Q:'' @ x @ ''A:'' @ y \<and> x \<noteq> [] \<and> y \<noteq> [])"

definition question_follows :: "string \<Rightarrow> bool" where
  "question_follows s = (\<exists>x y. s = x @ ''A:'' @ y \<and> x \<noteq> [] \<and> y \<noteq> [])"

definition answer_follows :: "string \<Rightarrow> bool" where
  "answer_follows s = (\<exists>w y. s = w @ ''A:'' @ y \<and> list_all is_space w \<and> y \<noteq> [])"

text \<open>
  The first unit of a text \<open>t\<close>, with its question \<open>q\<close>, its answer \<open>a\<close> and the
  text \<open>rest\<close> after it: the leftmost unit, split the way the priorities of the pattern
  demand (the greedy \<^verbatim>\<open>\s*\<close> as long, the lazy \<^verbatim>\<open>[\s\S]+?\<close> as short as possible).
\<close>

definition first_unit :: "string \<Rightarrow> string \<Rightarrow> string \<Rightarrow> string \<Rightarrow> bool" where
  "first_unit t q a rest =
     (\<exists>pre w1 w2 w3.
        t = pre @ ''Q:'' @ w1 @ q @ w2 @ ''A:'' @ w3 @ a @ rest \<and>
        (\<forall>n < length pre. \<not> unit_at_front (drop n t)) \<and>
        list_all is_space w1 \<and> list_all is_space w2 \<and> list_all is_space w3 \<and>
        q \<noteq> [] \<and> a \<noteq> [] \<and> (rest = [] \<or> prefix ''Q:'' rest) \<and>
        (\<forall>n. 0 < n \<and> list_all is_space (take n (q @ w2 @ ''A:'' @ w3 @ a @ rest)) \<longrightarrow>
           \<not> question_follows (drop n (q @ w2 @ ''A:'' @ w3 @ a @ rest))) \<and>
        (\<forall>m. 0 < m \<and> m < length q \<longrightarrow>
           \<not> answer_follows (drop m (q @ w2 @ ''A:'' @ w3 @ a @ rest))) \<and>
        (is_space (hd a) \<longrightarrow> length a = 1 \<and> rest = []) \<and>
        (\<forall>m. 0 < m \<and> m < length a \<longrightarrow> \<not> prefix ''Q:'' (drop m (a @ rest))))"

subsection \<open>What a successful match looks like\<close>

lemma flashcard_rx_parts: "flashcard_rx = Seq (Lit ''Q:'') (Seq (Star Space) question_rx)"
  by (simp add: flashcard_rx_def question_rx_def marker_rx_def answer_rx_def)

lemma rmatch_Star:
  "rmatch (Star cl) s c k = Some res \<Longrightarrow>
     \<exists>w s'. s = w @ s' \<and> list_all (in_cls cl) w \<and> k s' c = Some res"
proof (induction s)
  case Nil
  then show ?case by simp
next
  case (Cons x xs)
  show ?case
  proof (cases "in_cls cl x \<and> rmatch (Star cl) xs c k \<noteq> None")
    case True
    with Cons.prems have "rmatch (Star cl) xs c k = Some res" by auto
    from Cons.IH [OF this] obtain w s' where "xs = w @ s'" "list_all (in_cls cl) w" "k s' c = Some res"
      by blast
    with True have "x # xs = (x # w) @ s' \<and> list_all (in_cls cl) (x # w) \<and> k s' c = Some res"
      by simp
    then show ?thesis by blast
  next
    case False
    with Cons.prems have "k (x # xs) c = Some res" by (auto split: if_splits option.splits)
    then have "x # xs = [] @ (x # xs) \<and> list_all (in_cls cl) [] \<and> k (x # xs) c = Some res" by simp
    then show ?thesis by blast
  qed
qed

lemma rmatch_PlusLazy:
  "rmatch (PlusLazy cl) s c k = Some res \<Longrightarrow>
     \<exists>w s'. s = w @ s' \<and> w \<noteq> [] \<and> list_all (in_cls cl) w \<and> k s' c = Some res
        \<and> (\<forall>n. 0 < n \<and> n < length w \<longrightarrow> k (drop n s) c = None)"
proof (induction s)
  case Nil
  then show ?case by simp
next
  case (Cons x xs)
  from Cons.prems have x: "in_cls cl x" by (auto split: if_splits)
  show ?case
  proof (cases "k xs c")
    case (Some r)
    with Cons.prems x have "k xs c = Some res" by simp
    with x have "x # xs = [x] @ xs \<and> [x] \<noteq> [] \<and> list_all (in_cls cl) [x] \<and> k xs c = Some res
        \<and> (\<forall>n. 0 < n \<and> n < length [x] \<longrightarrow> k (drop n (x # xs)) c = None)" by simp
    then show ?thesis by blast
  next
    case None
    with Cons.prems x have "rmatch (PlusLazy cl) xs c k = Some res" by simp
    from Cons.IH [OF this] obtain w s' where w: "xs = w @ s'" "w \<noteq> []" "list_all (in_cls cl) w"
      "k s' c = Some res" "\<forall>n. 0 < n \<and> n < length w \<longrightarrow> k (drop n xs) c = None"
      by blast
    have "\<forall>n. 0 < n \<and> n < length (x # w) \<longrightarrow> k (drop n (x # xs)) c = None"
    proof (intro allI impI)
      fix n assume n: "0 < n \<and> n < length (x # w)"
      then obtain m where m: "n = Suc m" by (cases n) auto
      show "k (drop n (x # xs)) c = None"
      proof (cases m)
        case 0
        with m None show ?thesis by simp
      next
        case (Suc j)
        with m n w(5) show ?thesis by simp
      qed
    qed
    with w x have "x # xs = (x # w) @ s' \<and> x # w \<noteq> [] \<and> list_all (in_cls cl) (x # w)
        \<and> k s' c = Some res
        \<and> (\<forall>n. 0 < n \<and> n < length (x # w) \<longrightarrow> k (drop n (x # xs)) c = None)" by simp
    then show ?thesis by blast
  qed
qed

lemma rmatch_Seq_Lit:
  "rmatch (Seq (Lit l) r) s c k = Some res \<Longrightarrow> \<exists>s'. s = l @ s' \<and> rmatch r s' c k = Some res"
  by (auto simp: prefix_def split: if_splits)

lemma rmatch_Seq_Lit_append: "rmatch (Seq (Lit l) r) (l @ s) c k = rmatch r s c k"
  by simp

lemma rmatch_Seq_Star:
  assumes "rmatch (Seq (Star cl) r) s c k = Some res"
  shows "\<exists>w s'. s = w @ s' \<and> list_all (in_cls cl) w \<and> rmatch r s' c k = Some res"
proof -
  from assms have "rmatch (Star cl) s c (\<lambda>s' c'. rmatch r s' c' k) = Some res" by simp
  from rmatch_Star [OF this] show ?thesis .
qed

lemma rmatch_Seq_Group_PlusLazy:
  assumes "rmatch (Seq (Group n (PlusLazy cl)) r) s c k = Some res"
  shows "\<exists>w s'. s = w @ s' \<and> w \<noteq> [] \<and> list_all (in_cls cl) w
           \<and> rmatch r s' (c(n \<mapsto> w)) k = Some res
           \<and> (\<forall>m. 0 < m \<and> m < length w \<longrightarrow> rmatch r (drop m s) (c(n \<mapsto> take m s)) k = None)"
proof -
  let ?k = "\<lambda>s' c'. rmatch r s' (c'(n \<mapsto> take (length s - length s') s)) k"
  from assms have "rmatch (PlusLazy cl) s c ?k = Some res" by simp
  from rmatch_PlusLazy [OF this] obtain w s' where w: "s = w @ s'" "w \<noteq> []"
    "list_all (in_cls cl) w" "?k s' c = Some res"
    "\<forall>m. 0 < m \<and> m < length w \<longrightarrow> ?k (drop m s) c = None" by blast
  from w(1,4) have a: "rmatch r s' (c(n \<mapsto> w)) k = Some res" by simp
  have b: "\<forall>m. 0 < m \<and> m < length w \<longrightarrow> rmatch r (drop m s) (c(n \<mapsto> take m s)) k = None"
  proof (intro allI impI)
    fix m assume m: "0 < m \<and> m < length w"
    with w(5) have "?k (drop m s) c = None" by blast
    moreover from m w(1) have "length s - length (drop m s) = m" by simp
    ultimately show "rmatch r (drop m s) (c(n \<mapsto> take m s)) k = None" by simp
  qed
  from w(1,2,3) a b show ?thesis by blast
qed

lemma rmatch_Lookahead_Lit_End:
  "rmatch (Lookahead (Alt (Lit l) End)) s c k = (if prefix l s \<or> s = [] then k s c else None)"
  by simp

lemma match_here_flashcard_rx:
  assumes "match_here flashcard_rx t = Some (rest, c)"
  shows "\<exists>w1 q w2 w3 a. t = ''Q:'' @ w1 @ q @ w2 @ ''A:'' @ w3 @ a @ rest
           \<and> list_all is_space w1 \<and> list_all is_space w2 \<and> list_all is_space w3
           \<and> q \<noteq> [] \<and> a \<noteq> [] \<and> (rest = [] \<or> prefix ''Q:'' rest)
           \<and> (\<forall>m. 0 < m \<and> m < length a \<longrightarrow> \<not> prefix ''Q:'' (drop m (a @ rest)))
           \<and> c 1 = Some q \<and> c 2 = Some a"
proof -
  let ?k = "\<lambda>s' c'. Some (s', c')"
  let ?r7 = "Lookahead (Alt (Lit ''Q:'') End)"
  let ?r6 = "Seq (Group 2 (PlusLazy AnyChar)) ?r7"
  let ?r5 = "Seq (Star Space) ?r6"
  let ?r4 = "Seq (Lit ''A:'') ?r5"
  let ?r3 = "Seq (Star Space) ?r4"
  let ?r2 = "Seq (Group 1 (PlusLazy AnyChar)) ?r3"
  let ?r1 = "Seq (Star Space) ?r2"
  from assms have "rmatch (Seq (Lit ''Q:'') ?r1) t Map.empty ?k = Some (rest, c)"
    by (simp only: match_here_def flashcard_rx_def)
  from rmatch_Seq_Lit [OF this] obtain t1 where t1: "t = ''Q:'' @ t1"
    "rmatch ?r1 t1 Map.empty ?k = Some (rest, c)" by blast
  from rmatch_Seq_Star [OF t1(2)] obtain w1 t2 where t2: "t1 = w1 @ t2" "list_all (in_cls Space) w1"
    "rmatch ?r2 t2 Map.empty ?k = Some (rest, c)" by blast
  from rmatch_Seq_Group_PlusLazy [OF t2(3)] obtain q t3 where t3: "t2 = q @ t3" "q \<noteq> []"
    "rmatch ?r3 t3 [1 \<mapsto> q] ?k = Some (rest, c)" by blast
  from rmatch_Seq_Star [OF t3(3)] obtain w2 t4 where t4: "t3 = w2 @ t4" "list_all (in_cls Space) w2"
    "rmatch ?r4 t4 [1 \<mapsto> q] ?k = Some (rest, c)" by blast
  from rmatch_Seq_Lit [OF t4(3)] obtain t5 where t5: "t4 = ''A:'' @ t5"
    "rmatch ?r5 t5 [1 \<mapsto> q] ?k = Some (rest, c)" by blast
  from rmatch_Seq_Star [OF t5(2)] obtain w3 t6 where t6: "t5 = w3 @ t6" "list_all (in_cls Space) w3"
    "rmatch ?r6 t6 [1 \<mapsto> q] ?k = Some (rest, c)" by blast
  from rmatch_Seq_Group_PlusLazy [OF t6(3)] obtain a t7 where t7: "t6 = a @ t7" "a \<noteq> []"
    "rmatch ?r7 t7 [1 \<mapsto> q, 2 \<mapsto> a] ?k = Some (rest, c)"
    "\<forall>m. 0 < m \<and> m < length a \<longrightarrow> rmatch ?r7 (drop m t6) ([1 \<mapsto> q](2 \<mapsto> take m t6)) ?k = None"
    by blast
  from t7(3) have fin: "prefix ''Q:'' t7 \<or> t7 = []" "rest = t7" "c = [1 \<mapsto> q, 2 \<mapsto> a]"
    unfolding rmatch_Lookahead_Lit_End by (auto split: if_splits)
  have mini: "\<forall>m. 0 < m \<and> m < length a \<longrightarrow> \<not> prefix ''Q:'' (drop m (a @ rest))"
  proof (intro allI impI)
    fix m assume "0 < m \<and> m < length a"
    with t7(4) have "rmatch ?r7 (drop m t6) ([1 \<mapsto> q](2 \<mapsto> take m t6)) ?k = None" by blast
    then have "\<not> prefix ''Q:'' (drop m t6)"
      unfolding rmatch_Lookahead_Lit_End by (auto split: if_splits)
    with t7(1) fin(2) show "\<not> prefix ''Q:'' (drop m (a @ rest))" by simp
  qed
  have "t = ''Q:'' @ w1 @ q @ w2 @ ''A:'' @ w3 @ a @ rest"
    using t1(1) t2(1) t3(1) t4(1) t5(1) t6(1) t7(1) fin(2) by simp
  moreover have "c 1 = Some q" "c 2 = Some a" using fin(3) by simp_all
  moreover have "list_all is_space w1" "list_all is_space w2" "list_all is_space w3"
    using t2(2) t4(2) t6(2) by (simp_all add: list_all_iff)
  moreover have "rest = [] \<or> prefix ''Q:'' rest" using fin(1,2) by blast
  ultimately show ?thesis using t3(2) t7(2) mini by blast
qed

lemma exec_match_here:
  "exec r s = Some m \<Longrightarrow> \<exists>pre t. s = pre @ t \<and> match_here r t = Some m"
proof (induction s)
  case Nil
  then show ?case by simp
next
  case (Cons x xs)
  show ?case
  proof (cases "match_here r (x # xs)")
    case None
    with Cons.prems have "exec r xs = Some m" by simp
    from Cons.IH [OF this] obtain pre t where "xs = pre @ t" "match_here r t = Some m" by blast
    then have "x # xs = (x # pre) @ t \<and> match_here r t = Some m" by simp
    then show ?thesis by blast
  next
    case (Some m')
    with Cons.prems have "x # xs = [] @ (x # xs) \<and> match_here r (x # xs) = Some m" by simp
    then show ?thesis by blast
  qed
qed

lemma exec_flashcard_rx_shorter:
  assumes "exec flashcard_rx s = Some (rest, c)"
  shows "length rest < length s"
proof -
  from exec_match_here [OF assms] obtain pre t where t: "s = pre @ t"
    "match_here flashcard_rx t = Some (rest, c)" by blast
  from match_here_flashcard_rx [OF t(2)] obtain w1 q w2 w3 a where
    "t = ''Q:'' @ w1 @ q @ w2 @ ''A:'' @ w3 @ a @ rest" by blast
  then have "length rest < length t" by simp
  with t(1) show ?thesis by simp
qed

text \<open>
  \<^verbatim>\<open>match[n]\<close> as a string. A group that took no part in the match is
  \<^verbatim>\<open>undefined\<close> in JavaScript; both groups of \<^const>\<open>flashcard_rx\<close> take part in every
  match (\<open>match_here_flashcard_rx\<close>), so that branch is never taken in \<open>parseFlashcards\<close>.
\<close>

definition group_text :: "captures \<Rightarrow> nat \<Rightarrow> string" where
  "group_text c n = (case c n of Some g \<Rightarrow> g | None \<Rightarrow> [])"

text \<open>
  The loop \<^verbatim>\<open>while ((match = regex.exec(text)))\<close>: each round searches the text from
  \<^verbatim>\<open>lastIndex\<close> on, that is the text left after the match before.
\<close>

function parseFlashcards :: "string \<Rightarrow> Flashcard list" where
  "parseFlashcards text =
     (case exec flashcard_rx text of
        None \<Rightarrow> []
      | Some (rest, c) \<Rightarrow>
          \<lparr>question = trim (group_text c 1), answer = trim (group_text c 2)\<rparr> # parseFlashcards rest)"
  by pat_completeness auto
termination
  by (relation "measure length") (auto dest: exec_flashcard_rx_shorter)

declare parseFlashcards.simps [simp del]

section \<open>The stored sets\<close>

text \<open>
  The item \<^verbatim>\<open>ai_flashcard_sets\<close> of \<^verbatim>\<open>localStorage\<close>: \<^const>\<open>None\<close> when there is no
  item or \<^verbatim>\<open>JSON.parse\<close> rejects it. \<open>setItems\<close> counts the calls of
  \<^verbatim>\<open>localStorage.setItem\<close>; the program never reads it.
\<close>

record localStorage =
  item :: "StoredSet list option"
  setItems :: nat

definition getStoredSets :: "localStorage \<Rightarrow> StoredSet list" where
  "getStoredSets st = (case item st of None \<Rightarrow> [] | Some sets \<Rightarrow> sets)"

definition saveStoredSets :: "StoredSet list \<Rightarrow> localStorage \<Rightarrow> localStorage" where
  "saveStoredSets sets st = st\<lparr>item := Some sets, setItems := setItems st + 1\<rparr>"

text \<open>
  The pattern \<^verbatim>\<open>^base(?:\((\d+)\))?$\<close>, where \<^verbatim>\<open>escapeRegExp\<close> has made every character
  of \<open>base\<close> stand for itself. The \<^verbatim>\<open>^\<close> is the attempt at index 0 being the only one
  (\<^const>\<open>match_here\<close>).
\<close>

definition subject_rx :: "string \<Rightarrow> rx" where
  "subject_rx base =
     Seq (Lit base) (Seq (Opt (Seq (Lit ''('') (Seq (Group 1 (Plus Digit)) (Lit '')'')))) End)"

text \<open>The body of \<^verbatim>\<open>sets.forEach\<close>, on the pair \<^verbatim>\<open>(maxIndex, foundBase)\<close>.\<close>

definition scanSubject :: "rx \<Rightarrow> StoredSet \<Rightarrow> int \<times> bool \<Rightarrow> int \<times> bool" where
  "scanSubject regex storedSet acc =
     (let (maxIndex, foundBase) = acc
      in case match_here regex (subject storedSet) of
           None \<Rightarrow> acc
         | Some (rest, c) \<Rightarrow>
             (case c 1 of
                None \<Rightarrow> (maxIndex, True)
              | Some g \<Rightarrow>
                  if g \<noteq> []
                  then (case parseInt g of
                          None \<Rightarrow> acc
                        | Some idx \<Rightarrow> if idx > maxIndex then (idx, foundBase) else acc)
                  else (maxIndex, True)))"

text \<open>
  The suffix that \<^verbatim>\<open>parseInt\<close> reads from one stored subject, if the subject matches
  with its group, and whether every such suffix of the store is held exactly by a double.
\<close>

definition suffixOf :: "rx \<Rightarrow> StoredSet \<Rightarrow> int option" where
  "suffixOf regex storedSet =
     (case match_here regex (subject storedSet) of
        None \<Rightarrow> None
      | Some (rest, c) \<Rightarrow>
          (case c 1 of None \<Rightarrow> None | Some g \<Rightarrow> if g \<noteq> [] then parseInt g else None))"

definition exactSuffixes :: "string \<Rightarrow> StoredSet list \<Rightarrow> bool" where
  "exactSuffixes base sets =
     list_all (\<lambda>storedSet. case suffixOf (subject_rx base) storedSet of
                              None \<Rightarrow> True
                            | Some idx \<Rightarrow> exactly_held idx) sets"

text \<open>
  \<^verbatim>\<open>getUniqueSubjectName\<close>. The numbers of the program are doubles. While every suffix
  read from the store is below \<open>2 ^ 53\<close>, the comparisons, the sum \<^verbatim>\<open>maxIndex + 1\<close>
  (at most \<open>2 ^ 53\<close>) and its text are exact, and the name is the one computed here.
  From \<open>2 ^ 53\<close> on the name depends on how the engine rounds and prints doubles, which
  is not modelled: it is \<open>inexact base sets\<close>, a parameter of which nothing is assumed.
  Whether the base was found does not depend on numbers.
\<close>

definition getUniqueSubjectName ::
  "(string \<Rightarrow> StoredSet list \<Rightarrow> string) \<Rightarrow> string \<Rightarrow> StoredSet list \<Rightarrow> string" where
  "getUniqueSubjectName inexact base sets =
     (let (maxIndex, foundBase) = fold (scanSubject (subject_rx base)) sets (- 1, False)
      in if \<not> foundBase then base
         else if exactSuffixes base sets then base @ ''('' @ number_text (maxIndex + 1) @ '')''
         else inexact base sets)"

definition addStoredSet ::
  "(string \<Rightarrow> StoredSet list \<Rightarrow> string) \<Rightarrow> string \<Rightarrow> Flashcard list \<Rightarrow> localStorage
     \<Rightarrow> string \<times> localStorage" where
  "addStoredSet inexact subj cards st =
     (let sets = getStoredSets st;
          uniqueSubject = getUniqueSubjectName inexact subj sets
      in (uniqueSubject, saveStoredSets (\<lparr>subject = uniqueSubject, flashcards = cards\<rparr> # sets) st))"

text \<open>\<^verbatim>\<open>findIndex\<close>, with \<^const>\<open>None\<close> for \<^verbatim>\<open>-1\<close>.\<close>

fun findIndex :: "('a \<Rightarrow> bool) \<Rightarrow> 'a list \<Rightarrow> nat option" where
  "findIndex P [] = None"
| "findIndex P (x # xs) = (if P x then Some 0 else map_option Suc (findIndex P xs))"

definition updateStoredSet :: "string \<Rightarrow> Flashcard list \<Rightarrow> localStorage \<Rightarrow> localStorage" where
  "updateStoredSet subj cards st =
     (let sets = getStoredSets st
      in case findIndex (\<lambda>s. subject s = subj) sets of
           None \<Rightarrow> st
         | Some idx \<Rightarrow> saveStoredSets (sets[idx := (sets ! idx)\<lparr>flashcards := cards\<rparr>]) st)"

section \<open>\<^verbatim>\<open>generateFlashcards\<close>\<close>

text \<open>
  What the request to the text service comes back with: \<open>Thrown\<close> when \<^verbatim>\<open>fetch\<close> or
  \<^verbatim>\<open>res.json()\<close> throws (with the message of the \<^verbatim>\<open>Error\<close>, or \<^const>\<open>None\<close> for a
  value that is no \<^verbatim>\<open>Error\<close>), \<open>NotOk\<close> for a response whose \<^verbatim>\<open>ok\<close> is false,
  \<open>Body\<close> with the text \<^verbatim>\<open>data?.candidates?.[0]?.content?.parts?.[0]?.text || ""\<close>.
\<close>

datatype response = Thrown "string option" | NotOk | Body string

definition tokenCount :: "string \<Rightarrow> nat" where
  "tokenCount q = length (filter (\<lambda>w. w \<noteq> []) (split_ws q))"

definition filterCards :: "Flashcard list \<Rightarrow> Flashcard list" where
  "filterCards cards = filter (\<lambda>card. tokenCount (question card) < 30) cards"

text \<open>
  Following the words of the specification: the number of white-space-delimited tokens of a
  text, counted at the character that starts each token (\<open>inside\<close> tells whether the
  character before belongs to a token).
\<close>

fun spec_token_count :: "bool \<Rightarrow> string \<Rightarrow> nat" where
  "spec_token_count inside [] = 0"
| "spec_token_count inside (c # cs) =
     (if is_space c then spec_token_count False cs
      else (if inside then 0 else 1) + spec_token_count True cs)"

definition parseError :: string where
  "parseError = ''Could not parse flashcards from Gemini's response.''"

definition filterError :: string where
  "filterError = ''Could not parse flashcards with questions under 30 words from Gemini's response.''"

text \<open>
  The \<^verbatim>\<open>try\<close> block up to the filter (lines 306-324) together with the \<^verbatim>\<open>catch\<close>:
  the text for \<^verbatim>\<open>setError\<close>, or the filtered cards.
\<close>

definition receiveCards :: "response \<Rightarrow> string + Flashcard list" where
  "receiveCards resp =
     (case resp of
        Thrown None \<Rightarrow> Inl ''An error occurred.''
      | Thrown (Some m) \<Rightarrow> Inl (if m = [] then ''An error occurred.'' else m)
      | NotOk \<Rightarrow> Inl ''Failed to fetch flashcards from Gemini''
      | Body geminiText \<Rightarrow>
          (let cards = parseFlashcards geminiText
           in if length cards = 0 then Inl parseError
              else (let filteredCards = filterCards cards
                    in if length filteredCards = 0 then Inl filterError
                       else Inr filteredCards)))"

text \<open>
  One call, from the request to the \<^verbatim>\<open>finally\<close> block, taken as one step: the cells and
  the store it reads are those of the state it is applied to. The prompt is not modelled;
  what the service answers is the parameter \<open>resp\<close>. The parameter \<^verbatim>\<open>isAddMore\<close> of the
  source is never read and is left out. \<open>inexact\<close> is handed on to
  \<open>getUniqueSubjectName\<close>.
\<close>

definition generateFlashcards ::
  "(string \<Rightarrow> StoredSet list \<Rightarrow> string) \<Rightarrow> string \<Rightarrow> string list \<Rightarrow> response
     \<Rightarrow> ui_state \<times> localStorage \<Rightarrow> ui_state \<times> localStorage" where
  "generateFlashcards inexact subj prevQuestions resp \<sigma> =
     (let (s, st) = \<sigma>;
          s0 = s\<lparr>loading := True, error := None\<rparr>;
          (s1, st1) =
            (case receiveCards resp of
               Inl message \<Rightarrow> (s0\<lparr>error := Some message\<rparr>, st)
             | Inr filteredCards \<Rightarrow>
                 if length prevQuestions = 0
                 then (let (uniqueSubject, st') = addStoredSet inexact subj filteredCards st
                       in (s0\<lparr>storedSets := getStoredSets st',
                              st_subject := uniqueSubject,
                              activeSubject := Some uniqueSubject,
                              st_flashcards := filteredCards,
                              showGenerator := False,
                              current := 0,
                              showAnswer := False,
                              switchAnimKey := switchAnimKey s + 1\<rparr>, st'))
                 else (let updated = st_flashcards s @ filteredCards;
                           (sets', st') =
                             (case activeSubject s of
                                None \<Rightarrow> (storedSets s, st)
                              | Some a \<Rightarrow>
                                  if a \<noteq> []
                                  then (let st2 = updateStoredSet a updated st
                                        in (getStoredSets st2, st2))
                                  else (storedSets s, st))
                       in (s0\<lparr>st_flashcards := updated,
                              storedSets := sets',
                              current := int (length (st_flashcards s)),
                              showAnswer := False,
                              switchAnimKey := switchAnimKey s + 1\<rparr>, st')))
      in (s1\<lparr>loading := False, addingMore := False\<rparr>, st1))"

definition handleSubmit ::
  "(string \<Rightarrow> StoredSet list \<Rightarrow> string) \<Rightarrow> response
     \<Rightarrow> ui_state \<times> localStorage \<Rightarrow> ui_state \<times> localStorage" where
  "handleSubmit inexact resp \<sigma> =
     (let (s, st) = \<sigma>
      in generateFlashcards inexact (st_subject s) [] resp
           (s\<lparr>st_flashcards := [], current := 0, showAnswer := False, activeSubject := None,
              switchAnimKey := switchAnimKey s + 1\<rparr>, st))"

definition handleAddMore ::
  "(string \<Rightarrow> StoredSet list \<Rightarrow> string) \<Rightarrow> response
     \<Rightarrow> ui_state \<times> localStorage \<Rightarrow> ui_state \<times> localStorage" where
  "handleAddMore inexact resp \<sigma> =
     (let (s, st) = \<sigma>;
          prevQuestions = map question (st_flashcards s)
      in generateFlashcards inexact (case activeSubject s of Some a \<Rightarrow> a | None \<Rightarrow> st_subject s)
           prevQuestions resp (s\<lparr>addingMore := True\<rparr>, st))"

section \<open>Leaving, opening and deleting a set\<close>

definition handleBackToGenerator :: "ui_state \<Rightarrow> ui_state" where
  "handleBackToGenerator s =
     s\<lparr>showGenerator := True, st_flashcards := [], current := 0, showAnswer := False,
       error := None, st_subject := [], activeSubject := None,
       switchAnimKey := switchAnimKey s + 1\<rparr>"

definition handleStoredSetClick :: "StoredSet \<Rightarrow> ui_state \<Rightarrow> ui_state" where
  "handleStoredSetClick storedSet s =
     s\<lparr>st_subject := subject storedSet, activeSubject := Some (subject storedSet),
       st_flashcards := flashcards storedSet, showGenerator := False, current := 0,
       showAnswer := False, error := None, switchAnimKey := switchAnimKey s + 1\<rparr>"

definition handleDeleteStoredSet ::
  "string \<Rightarrow> ui_state \<times> localStorage \<Rightarrow> ui_state \<times> localStorage" where
  "handleDeleteStoredSet subjectToDelete \<sigma> =
     (let (s, st) = \<sigma>;
          sets = filter (\<lambda>x. subject x \<noteq> subjectToDelete) (getStoredSets st);
          st1 = saveStoredSets sets st;
          s1 = s\<lparr>storedSets := sets\<rparr>
      in (if \<not> showGenerator s \<and> (activeSubject s = Some subjectToDelete \<or> st_subject s = subjectToDelete)
          then handleBackToGenerator s1 else s1, st1))"

section \<open>Navigation handlers\<close>

definition handleFlip :: "ui_state \<Rightarrow> ui_state" where
  "handleFlip s = s\<lparr>showAnswer := \<not> showAnswer s\<rparr>"

definition handleCircleClick :: "int \<Rightarrow> ui_state \<Rightarrow> ui_state" where
  "handleCircleClick idx s =
     (let s1 = (if idx \<noteq> current s then s\<lparr>switchAnimKey := switchAnimKey s + 1\<rparr> else s)
      in s1\<lparr>current := idx, showAnswer := False\<rparr>)"

definition handlePrev :: "ui_state \<Rightarrow> ui_state" where
  "handlePrev s =
     (if current s > 0
      then s\<lparr>switchAnimKey := switchAnimKey s + 1, current := current s - 1, showAnswer := False\<rparr>
      else s)"

definition handleNext :: "ui_state \<Rightarrow> ui_state" where
  "handleNext s =
     (if current s < int (length (st_flashcards s)) - 1
      then s\<lparr>switchAnimKey := switchAnimKey s + 1, current := current s + 1, showAnswer := False\<rparr>
      else s)"

text \<open>
  The effect on \<^verbatim>\<open>[current, lastCurrent]\<close> (lines 446-453), as far as it writes state:
  when the index differs from the one last seen, \<^verbatim>\<open>switching\<close> is raised and the index is
  recorded. The timer that lowers the flag again is not part of the model.
\<close>

definition switchingEffect :: "ui_state \<Rightarrow> ui_state" where
  "switchingEffect s =
     (if lastCurrent s \<noteq> current s then s\<lparr>switching := True, lastCurrent := current s\<rparr> else s)"

text \<open>The navigation operations the view offers, and a run of them.\<close>

datatype nav = Next | Prev | GoTo int | ToggleReveal

fun nav_step :: "nav \<Rightarrow> ui_state \<Rightarrow> ui_state" where
  "nav_step Next s = switchingEffect (handleNext s)"
| "nav_step Prev s = switchingEffect (handlePrev s)"
| "nav_step (GoTo idx) s = switchingEffect (handleCircleClick idx s)"
| "nav_step ToggleReveal s = switchingEffect (handleFlip s)"

fun nav_run :: "nav list \<Rightarrow> ui_state \<Rightarrow> ui_state" where
  "nav_run [] s = s"
| "nav_run (e # es) s = nav_run es (nav_step e s)"

text \<open>The indices a run asks \<^verbatim>\<open>handleCircleClick\<close> for: the view renders one circle per card.\<close>

fun circle_ok :: "nat \<Rightarrow> nav \<Rightarrow> bool" where
  "circle_ok n (GoTo idx) = (0 \<le> idx \<and> idx < int n)"
| "circle_ok n _ = True"

definition in_range :: "ui_state \<Rightarrow> bool" where
  "in_range s = (0 \<le> current s \<and> current s < int (length (st_flashcards s)))"

text \<open>
  A session that browses the three cards of the set \<open>Math\<close> with the answer of the first
  one shown, and the store that goes with it: the browsed set and one more.
\<close>

definition three_cards :: "Flashcard list" where
  "three_cards =
     [\<lparr>question = ''q1'', answer = ''a1''\<rparr>,
      \<lparr>question = ''q2'', answer = ''a2''\<rparr>,
      \<lparr>question = ''q3'', answer = ''a3''\<rparr>]"

definition browsing :: ui_state where
  "browsing =
     \<lparr>st_subject = ''Math'', st_flashcards = three_cards, loading = False, error = None,
      current = 0, showAnswer = True, showGenerator = False, addingMore = False,
      storedSets = [\<lparr>subject = ''Bio'', flashcards = [\<lparr>question = ''q'', answer = ''a''\<rparr>]\<rparr>,
                    \<lparr>subject = ''Math'', flashcards = three_cards\<rparr>],
      activeSubject = Some ''Math'', switchAnimKey = 1, lastCurrent = 0, switching = False\<rparr>"

definition two_sets :: localStorage where
  "two_sets =
     \<lparr>item = Some [\<lparr>subject = ''Bio'', flashcards = [\<lparr>question = ''q'', answer = ''a''\<rparr>]\<rparr>,
                   \<lparr>subject = ''Math'', flashcards = three_cards\<rparr>],
      setItems = 0\<rparr>"

text \<open>
  Questions of thirty and of twenty-nine words, a reply of the service whose only question
  has thirty words, a reply with a question of each kind, and a store whose item is gone (removed outside the component, or
  never written).
\<close>

definition thirty_words :: string where
  "thirty_words = ''a a a a a a a a a a b b b b b b b b b b c c c c c c c c c c''"

definition twenty_nine_words :: string where
  "twenty_nine_words = ''a a a a a a a a a a b b b b b b b b b b c c c c c c c c c''"

definition thirty_reply :: string where
  "thirty_reply = ''Q: '' @ thirty_words @ '' A: x''"

definition mixed_reply :: string where
  "mixed_reply = ''Q: '' @ twenty_nine_words @ '' A: x Q: '' @ thirty_words @ '' A: y''"

definition no_sets :: localStorage where
  "no_sets = \<lparr>item = None, setItems = 0\<rparr>"

text \<open>
  The closed examples below stay clear of suffixes from \<open>2 ^ 53\<close> on, so the function
  passed for \<open>inexact\<close> is never applied in them; this one is passed.
\<close>

definition unreached :: "string \<Rightarrow> StoredSet list \<Rightarrow> string" where
  "unreached base sets = []"

section \<open>Navigation: bounds, no-ops and the reveal flag\<close>

lemma nav_step_cards: "st_flashcards (nav_step e s) = st_flashcards s"
  by (cases e)
     (simp_all add: switchingEffect_def handleNext_def handlePrev_def handleCircleClick_def
        handleFlip_def Let_def)

lemma nav_step_in_range:
  assumes "in_range s" and "circle_ok (length (st_flashcards s)) e"
  shows "in_range (nav_step e s)"
  using assms
  by (cases e)
     (auto simp: in_range_def switchingEffect_def handleNext_def handlePrev_def
        handleCircleClick_def handleFlip_def Let_def)

lemma nav_run_keeps:
  "in_range s \<Longrightarrow> list_all (circle_ok (length (st_flashcards s))) es \<Longrightarrow>
     in_range (nav_run es s) \<and> st_flashcards (nav_run es s) = st_flashcards s"
proof (induction es arbitrary: s)
  case Nil
  then show ?case by simp
next
  case (Cons e es)
  from Cons.prems have "in_range (nav_step e s)"
    by (simp add: nav_step_in_range)
  moreover from Cons.prems have "list_all (circle_ok (length (st_flashcards (nav_step e s)))) es"
    by (simp add: nav_step_cards)
  ultimately have "in_range (nav_run es (nav_step e s))
      \<and> st_flashcards (nav_run es (nav_step e s)) = st_flashcards (nav_step e s)"
    by (rule Cons.IH)
  then show ?case by (simp add: nav_step_cards)
qed

text \<open>
  Claim C2, as the code has it. \<^verbatim>\<open>handleCircleClick\<close> checks no bound: the index it is given
  becomes the current index, whatever it is. The index stays within \<open>[0, N-1]\<close> because the
  view offers one circle per card: from a state whose index is in range, every run of
  next, prev, reveal and of circle clicks on indices in \<open>[0, N-1]\<close> ends with the index
  in range, over the same cards.
\<close>

theorem goTo_unchecked_run_in_range:
  "current (handleCircleClick idx s) = idx \<and>
   (in_range s \<and> list_all (circle_ok (length (st_flashcards s))) es \<longrightarrow>
      in_range (nav_run es s) \<and> st_flashcards (nav_run es s) = st_flashcards s)"
  using nav_run_keeps [of s es] by (simp add: handleCircleClick_def Let_def)

theorem goTo_unchecked_run_in_range_witness:
  "in_range browsing \<and>
   list_all (circle_ok (length (st_flashcards browsing))) [Next, GoTo 2, ToggleReveal, Next, Prev] \<and>
   in_range (nav_run [Next, GoTo 2, ToggleReveal, Next, Prev] browsing) \<and>
   current (nav_run [Next, GoTo 2, ToggleReveal, Next, Prev] browsing) = 1"
  using goTo_unchecked_run_in_range [of 0 browsing "[Next, GoTo 2, ToggleReveal, Next, Prev]"]
  by (simp add: browsing_def three_cards_def in_range_def switchingEffect_def handleNext_def
      handlePrev_def handleCircleClick_def handleFlip_def Let_def)

text \<open>
  Claim C2 fails as it is stated: with three cards, a click for index 7 is no no-op, and the
  current index it leaves is outside \<open>[0, 2]\<close>.
\<close>

theorem goTo_out_of_range_counterexample:
  "length (st_flashcards browsing) = 3 \<and>
   handleCircleClick 7 browsing \<noteq> browsing \<and>
   current (handleCircleClick 7 browsing) = 7 \<and>
   \<not> in_range (handleCircleClick 7 browsing)"
proof -
  have c: "current (handleCircleClick 7 browsing) = 7"
    by (simp add: handleCircleClick_def Let_def)
  have "current browsing = 0" by (simp add: browsing_def)
  with c have "handleCircleClick 7 browsing \<noteq> browsing" by auto
  moreover have "length (st_flashcards (handleCircleClick 7 browsing)) = 3"
    by (simp add: handleCircleClick_def Let_def browsing_def three_cards_def)
  moreover have "length (st_flashcards browsing) = 3"
    by (simp add: browsing_def three_cards_def)
  ultimately show ?thesis using c by (simp add: in_range_def)
qed

text \<open>
  Claim C7, as the code has it. A click on the circle of the current card leaves the index,
  the animation key and the switching flag as they are, and hides the answer: the state
  after it is the state before with \<^verbatim>\<open>showAnswer\<close> false, also once the effect has run.
\<close>

theorem goTo_current_hides_answer:
  "handleCircleClick (current s) s = s\<lparr>showAnswer := False\<rparr> \<and>
   switchingEffect (handleCircleClick (current s) s) = (switchingEffect s)\<lparr>showAnswer := False\<rparr>"
  by (simp add: handleCircleClick_def switchingEffect_def Let_def)

text \<open>
  Claim C7 fails as it is stated: with the answer of card 0 shown, a click on circle 0
  changes \<^verbatim>\<open>showAnswer\<close>.
\<close>

theorem goTo_current_counterexample:
  "current browsing = 0 \<and> showAnswer browsing \<and> \<not> showAnswer (handleCircleClick 0 browsing)"
  by (simp add: browsing_def handleCircleClick_def Let_def)

text \<open>
  Claim C8. With \<open>N\<close> cards, \<^verbatim>\<open>handleNext\<close> at index \<open>N-1\<close> and \<^verbatim>\<open>handlePrev\<close> at index 0
  return the state they were given; below \<open>N-1\<close> \<^verbatim>\<open>handleNext\<close> does what a click on
  circle \<open>current+1\<close> does, and above 0 \<^verbatim>\<open>handlePrev\<close> does what a click on circle
  \<open>current-1\<close> does.
\<close>

theorem next_prev_bounds:
  "(current s = int (length (st_flashcards s)) - 1 \<longrightarrow> handleNext s = s) \<and>
   (current s = 0 \<longrightarrow> handlePrev s = s) \<and>
   (current s < int (length (st_flashcards s)) - 1 \<longrightarrow>
      handleNext s = handleCircleClick (current s + 1) s) \<and>
   (0 < current s \<longrightarrow> handlePrev s = handleCircleClick (current s - 1) s)"
  by (simp add: handleNext_def handlePrev_def handleCircleClick_def Let_def)

theorem next_prev_bounds_witness:
  "current browsing = 0 \<and> handlePrev browsing = browsing \<and>
   current browsing < int (length (st_flashcards browsing)) - 1 \<and>
   handleNext browsing = handleCircleClick 1 browsing \<and>
   current (handleNext browsing) = 1 \<and>
   current (browsing\<lparr>current := 2\<rparr>) = int (length (st_flashcards (browsing\<lparr>current := 2\<rparr>))) - 1 \<and>
   handleNext (browsing\<lparr>current := 2\<rparr>) = browsing\<lparr>current := 2\<rparr> \<and>
   0 < current (browsing\<lparr>current := 2\<rparr>) \<and>
   handlePrev (browsing\<lparr>current := 2\<rparr>) = handleCircleClick 1 (browsing\<lparr>current := 2\<rparr>)"
proof -
  have a: "current browsing = 0" "length (st_flashcards browsing) = 3"
    by (simp_all add: browsing_def three_cards_def)
  have b: "current (handleNext browsing) = 1"
    by (simp add: handleNext_def a)
  from a b next_prev_bounds [of browsing] next_prev_bounds [of "browsing\<lparr>current := 2\<rparr>"]
  show ?thesis by simp
qed

text \<open>
  Claim C9. Whenever next, prev or a circle click changes the current index, the answer is
  hidden afterwards, whether or not it was shown before.
\<close>

theorem reveal_reset_on_index_change:
  "current (nav_step e s) \<noteq> current s \<Longrightarrow> \<not> showAnswer (nav_step e s)"
  by (cases e)
     (auto simp: switchingEffect_def handleNext_def handlePrev_def handleCircleClick_def
        handleFlip_def Let_def split: if_splits)

theorem reveal_reset_on_index_change_witness:
  "showAnswer (nav_step ToggleReveal (browsing\<lparr>showAnswer := False\<rparr>)) \<and>
   current (nav_step Next (nav_step ToggleReveal (browsing\<lparr>showAnswer := False\<rparr>)))
     \<noteq> current (nav_step ToggleReveal (browsing\<lparr>showAnswer := False\<rparr>)) \<and>
   \<not> showAnswer (nav_step Next (nav_step ToggleReveal (browsing\<lparr>showAnswer := False\<rparr>)))"
proof -
  let ?s = "nav_step ToggleReveal (browsing\<lparr>showAnswer := False\<rparr>)"
  have a: "showAnswer ?s" "current ?s = 0"
    by (simp_all add: browsing_def switchingEffect_def handleFlip_def)
  have b: "current (nav_step Next ?s) = 1"
    by (simp add: browsing_def three_cards_def switchingEffect_def handleFlip_def handleNext_def)
  then have "current (nav_step Next ?s) \<noteq> current ?s" using a by simp
  from reveal_reset_on_index_change [OF this] a b show ?thesis by simp
qed

text \<open>
  The other handlers that move the index hide the answer as well.
\<close>

lemma index_change_elsewhere_hides_answer:
  "\<not> showAnswer (fst (handleSubmit inexact resp (s, st)))"
  "current (fst (handleAddMore inexact resp (s, st))) \<noteq> current s \<Longrightarrow>
     \<not> showAnswer (fst (handleAddMore inexact resp (s, st)))"
  "\<not> showAnswer (handleBackToGenerator s)"
  "\<not> showAnswer (handleStoredSetClick x s)"
  "current (fst (handleDeleteStoredSet d (s, st))) \<noteq> current s \<Longrightarrow>
     \<not> showAnswer (fst (handleDeleteStoredSet d (s, st)))"
  by (auto simp: handleSubmit_def handleAddMore_def generateFlashcards_def
      handleBackToGenerator_def handleStoredSetClick_def handleDeleteStoredSet_def Let_def
      split: sum.splits prod.splits option.splits if_splits)



section \<open>Parsing the response\<close>

lemma trim_spec:
  "\<exists>l r. s = l @ trim s @ r \<and> list_all is_space l \<and> list_all is_space r \<and>
     (trim s = [] \<or> (\<not> is_space (hd (trim s)) \<and> \<not> is_space (last (trim s))))"
proof -
  define l where "l = takeWhile is_space s"
  define m where "m = dropWhile is_space s"
  define r where "r = rev (takeWhile is_space (rev m))"
  define u where "u = dropWhile is_space (rev m)"
  have t: "trim s = rev u" by (simp add: trim_def u_def m_def)
  have "rev (takeWhile is_space (rev m) @ u) = rev u @ r" by (simp only: rev_append r_def)
  moreover have "takeWhile is_space (rev m) @ u = rev m" by (simp add: u_def)
  ultimately have "rev (rev m) = rev u @ r" by (simp only:)
  then have m: "m = trim s @ r" by (simp only: t rev_rev_ident)
  have "l @ m = s" unfolding l_def m_def by (rule takeWhile_dropWhile_id)
  then have s: "s = l @ trim s @ r" by (metis m)
  have l: "list_all is_space l" by (auto simp: l_def list_all_iff dest: set_takeWhileD)
  have r: "list_all is_space r" by (auto simp: r_def list_all_iff dest: set_takeWhileD)
  have e: "trim s = [] \<or> (\<not> is_space (hd (trim s)) \<and> \<not> is_space (last (trim s)))"
  proof (cases "u = []")
    case True
    then show ?thesis by (simp add: t)
  next
    case False
    then have "\<not> is_space (hd u)" unfolding u_def by (rule hd_dropWhile)
    with False have la: "\<not> is_space (last (trim s))" by (simp add: t last_rev)
    from False have tn: "trim s \<noteq> []" by (simp add: t)
    then have "trim s @ r \<noteq> []" by simp
    then have "m \<noteq> []" by (metis m)
    then have "\<not> is_space (hd m)" unfolding m_def by (rule hd_dropWhile)
    moreover from tn have "hd (trim s @ r) = hd (trim s)" by simp
    ultimately have "\<not> is_space (hd (trim s))" by (metis m)
    with la show ?thesis by simp
  qed
  from s l r e show ?thesis by blast
qed

subsection \<open>Which match is taken\<close>

text \<open>
  The matcher tries the ways to match in a fixed order, and the lemmas below say which one
  it takes: a greedy \<^verbatim>\<open>\s*\<close> is as long as the rest of the pattern allows, a lazy
  \<^verbatim>\<open>[\s\S]+?\<close> as short as it allows, and \<^const>\<open>exec\<close> takes the first position
  at which an attempt succeeds.
\<close>

lemma all_Space: "list_all (in_cls Space) xs = list_all is_space xs"
  by (simp add: list_all_iff)

lemma all_AnyChar: "list_all (in_cls AnyChar) xs"
  by (simp add: list_all_iff)

lemma rmatch_Star_None:
  "rmatch (Star cl) s c k = None \<Longrightarrow> list_all (in_cls cl) (take n s) \<Longrightarrow> k (drop n s) c = None"
proof (induction s arbitrary: n)
  case Nil
  then show ?case by simp
next
  case (Cons x xs)
  show ?case
  proof (cases n)
    case 0
    from Cons.prems(1) have "k (x # xs) c = None"
      by (cases "in_cls cl x"; cases "rmatch (Star cl) xs c k") simp_all
    with 0 show ?thesis by simp
  next
    case (Suc m)
    with Cons.prems(2) have x: "in_cls cl x" and m: "list_all (in_cls cl) (take m xs)" by simp_all
    from Cons.prems(1) x have "rmatch (Star cl) xs c k = None"
      by (cases "rmatch (Star cl) xs c k") simp_all
    from Cons.IH [OF this m] Suc show ?thesis by simp
  qed
qed

lemma rmatch_Star_first:
  "rmatch (Star cl) s c k = Some res \<Longrightarrow>
     \<exists>j. j \<le> length s \<and> list_all (in_cls cl) (take j s) \<and> k (drop j s) c = Some res \<and>
       (\<forall>n. j < n \<and> n \<le> length s \<and> list_all (in_cls cl) (take n s) \<longrightarrow> k (drop n s) c = None)"
proof (induction s)
  case Nil
  then have "0 \<le> length ([] :: string) \<and> list_all (in_cls cl) (take 0 []) \<and>
      k (drop 0 []) c = Some res \<and>
      (\<forall>n. 0 < n \<and> n \<le> length ([] :: string) \<and> list_all (in_cls cl) (take n []) \<longrightarrow>
         k (drop n []) c = None)"
    by auto
  then show ?case by (rule exI)
next
  case (Cons x xs)
  show ?case
  proof (cases "in_cls cl x \<and> rmatch (Star cl) xs c k \<noteq> None")
    case True
    then obtain r where r: "rmatch (Star cl) xs c k = Some r" by auto
    with Cons.prems True have "rmatch (Star cl) xs c k = Some res" by simp
    from Cons.IH [OF this] obtain j where j: "j \<le> length xs" "list_all (in_cls cl) (take j xs)"
      "k (drop j xs) c = Some res"
      "\<forall>n. j < n \<and> n \<le> length xs \<and> list_all (in_cls cl) (take n xs) \<longrightarrow> k (drop n xs) c = None"
      by (elim exE conjE)
    have later: "\<forall>n. Suc j < n \<and> n \<le> length (x # xs) \<and> list_all (in_cls cl) (take n (x # xs)) \<longrightarrow>
        k (drop n (x # xs)) c = None"
    proof (intro allI impI)
      fix n assume n: "Suc j < n \<and> n \<le> length (x # xs) \<and> list_all (in_cls cl) (take n (x # xs))"
      then obtain m where m: "n = Suc m" by (cases n) auto
      with n have "j < m \<and> m \<le> length xs \<and> list_all (in_cls cl) (take m xs)" by simp
      with j(4) have "k (drop m xs) c = None" by (elim allE impE)
      with m show "k (drop n (x # xs)) c = None" by simp
    qed
    from j(1,2,3) True have "Suc j \<le> length (x # xs) \<and> list_all (in_cls cl) (take (Suc j) (x # xs)) \<and>
        k (drop (Suc j) (x # xs)) c = Some res" by simp
    with later have "Suc j \<le> length (x # xs) \<and> list_all (in_cls cl) (take (Suc j) (x # xs)) \<and>
        k (drop (Suc j) (x # xs)) c = Some res \<and>
        (\<forall>n. Suc j < n \<and> n \<le> length (x # xs) \<and> list_all (in_cls cl) (take n (x # xs)) \<longrightarrow>
           k (drop n (x # xs)) c = None)" by (intro conjI) (elim conjE, assumption)+
    then show ?thesis by (rule exI)
  next
    case False
    from Cons.prems False have here: "k (x # xs) c = Some res"
      by (cases "in_cls cl x"; cases "rmatch (Star cl) xs c k") simp_all
    have later: "\<forall>n. 0 < n \<and> n \<le> length (x # xs) \<and> list_all (in_cls cl) (take n (x # xs)) \<longrightarrow>
        k (drop n (x # xs)) c = None"
    proof (intro allI impI)
      fix n assume n: "0 < n \<and> n \<le> length (x # xs) \<and> list_all (in_cls cl) (take n (x # xs))"
      then obtain m where m: "n = Suc m" by (cases n) auto
      with n have x: "in_cls cl x" and t: "list_all (in_cls cl) (take m xs)" by simp_all
      with False have "rmatch (Star cl) xs c k = None"
        by (cases "rmatch (Star cl) xs c k") auto
      from rmatch_Star_None [OF this t] m show "k (drop n (x # xs)) c = None" by simp
    qed
    from here have "0 \<le> length (x # xs) \<and> list_all (in_cls cl) (take 0 (x # xs)) \<and>
        k (drop 0 (x # xs)) c = Some res" by simp
    with later have "0 \<le> length (x # xs) \<and> list_all (in_cls cl) (take 0 (x # xs)) \<and>
        k (drop 0 (x # xs)) c = Some res \<and>
        (\<forall>n. 0 < n \<and> n \<le> length (x # xs) \<and> list_all (in_cls cl) (take n (x # xs)) \<longrightarrow>
           k (drop n (x # xs)) c = None)" by (intro conjI) (elim conjE, assumption)+
    then show ?thesis by (rule exI)
  qed
qed

lemma rmatch_PlusLazy_None:
  "rmatch (PlusLazy cl) s c k = None \<Longrightarrow> 0 < n \<Longrightarrow> n \<le> length s \<Longrightarrow>
     list_all (in_cls cl) (take n s) \<Longrightarrow> k (drop n s) c = None"
proof (induction s arbitrary: n)
  case Nil
  then show ?case by simp
next
  case (Cons x xs)
  from Cons.prems(2) obtain m where m: "n = Suc m" by (cases n) auto
  with Cons.prems(4) have x: "in_cls cl x" and t: "list_all (in_cls cl) (take m xs)" by simp_all
  from Cons.prems(1) x have k: "k xs c = None" and r: "rmatch (PlusLazy cl) xs c k = None"
    by (cases "k xs c"; simp)+
  show ?case
  proof (cases m)
    case 0
    with m k show ?thesis by simp
  next
    case (Suc j)
    with m Cons.prems(3) have "0 < m" "m \<le> length xs" by simp_all
    from Cons.IH [OF r this t] m show ?thesis by simp
  qed
qed


lemma rmatch_Seq_Star_None:
  assumes "rmatch (Seq (Star cl) r) s c k = None" and "list_all (in_cls cl) (take n s)"
  shows "rmatch r (drop n s) c k = None"
proof -
  from assms(1) have "rmatch (Star cl) s c (\<lambda>s' c'. rmatch r s' c' k) = None" by simp
  from rmatch_Star_None [OF this assms(2)] show ?thesis .
qed

lemma rmatch_Seq_Star_first:
  assumes "rmatch (Seq (Star cl) r) s c k = Some res"
  shows "\<exists>w s'. s = w @ s' \<and> list_all (in_cls cl) w \<and> rmatch r s' c k = Some res \<and>
           (\<forall>n. 0 < n \<and> n \<le> length s' \<and> list_all (in_cls cl) (take n s') \<longrightarrow>
              rmatch r (drop n s') c k = None)"
proof -
  let ?k = "\<lambda>s' c'. rmatch r s' c' k"
  from assms have "rmatch (Star cl) s c ?k = Some res" by simp
  from rmatch_Star_first [OF this] obtain j where j: "j \<le> length s"
    "list_all (in_cls cl) (take j s)" "?k (drop j s) c = Some res"
    "\<forall>n. j < n \<and> n \<le> length s \<and> list_all (in_cls cl) (take n s) \<longrightarrow> ?k (drop n s) c = None"
    by (elim exE conjE)
  have later: "\<forall>n. 0 < n \<and> n \<le> length (drop j s) \<and> list_all (in_cls cl) (take n (drop j s)) \<longrightarrow>
      rmatch r (drop n (drop j s)) c k = None"
  proof (intro allI impI)
    fix n assume n: "0 < n \<and> n \<le> length (drop j s) \<and> list_all (in_cls cl) (take n (drop j s))"
    have "take (j + n) s = take j s @ take n (drop j s)" by (rule take_add)
    with j(2) n have "list_all (in_cls cl) (take (j + n) s)" by simp
    moreover from n j(1) have "j < j + n \<and> j + n \<le> length s" by auto
    ultimately have "j < j + n \<and> j + n \<le> length s \<and> list_all (in_cls cl) (take (j + n) s)"
      by simp
    with j(4) have "?k (drop (j + n) s) c = None" by (elim allE impE)
    moreover have "drop n (drop j s) = drop (j + n) s" by (simp add: add.commute)
    ultimately show "rmatch r (drop n (drop j s)) c k = None" by simp
  qed
  have "s = take j s @ drop j s" by simp
  with j(2,3) later have "s = take j s @ drop j s \<and> list_all (in_cls cl) (take j s) \<and>
      rmatch r (drop j s) c k = Some res \<and>
      (\<forall>n. 0 < n \<and> n \<le> length (drop j s) \<and> list_all (in_cls cl) (take n (drop j s)) \<longrightarrow>
         rmatch r (drop n (drop j s)) c k = None)" by (intro conjI)
  then show ?thesis by (intro exI)
qed

lemma rmatch_Seq_Group_PlusLazy_None:
  assumes "rmatch (Seq (Group g (PlusLazy cl)) r) s c k = None" and "0 < n" and "n \<le> length s"
    and "list_all (in_cls cl) (take n s)"
  shows "rmatch r (drop n s) (c(g \<mapsto> take n s)) k = None"
proof -
  let ?k = "\<lambda>s' c'. rmatch r s' (c'(g \<mapsto> take (length s - length s') s)) k"
  from assms(1) have "rmatch (PlusLazy cl) s c ?k = None" by simp
  from rmatch_PlusLazy_None [OF this assms(2,3,4)] have "?k (drop n s) c = None" .
  moreover from assms(3) have "length s - length (drop n s) = n" by simp
  ultimately show ?thesis by simp
qed

lemma answer_rx_complete:
  assumes "s \<noteq> []"
  shows "rmatch answer_rx s c (\<lambda>s' c'. Some (s', c')) \<noteq> None"
proof
  assume "rmatch answer_rx s c (\<lambda>s' c'. Some (s', c')) = None"
  then have n: "rmatch (Seq (Group 2 (PlusLazy AnyChar)) (Lookahead (Alt (Lit ''Q:'') End))) s c
      (\<lambda>s' c'. Some (s', c')) = None" by (simp only: answer_rx_def)
  from assms have "0 < length s" "length s \<le> length s" by simp_all
  from rmatch_Seq_Group_PlusLazy_None [OF n this all_AnyChar]
  have "rmatch (Lookahead (Alt (Lit ''Q:'') End)) (drop (length s) s) (c(2 \<mapsto> take (length s) s))
      (\<lambda>s' c'. Some (s', c')) = None" .
  then show False unfolding rmatch_Lookahead_Lit_End by simp
qed

lemma marker_rx_complete:
  assumes "answer_follows s"
  shows "rmatch marker_rx s c (\<lambda>s' c'. Some (s', c')) \<noteq> None"
proof
  let ?k = "\<lambda>s' (c' :: captures). Some (s', c')"
  assume "rmatch marker_rx s c ?k = None"
  then have n: "rmatch (Seq (Star Space) (Seq (Lit ''A:'') (Seq (Star Space) answer_rx))) s c ?k = None"
    by (simp only: marker_rx_def)
  from assms obtain w y where s: "s = w @ ''A:'' @ y" "list_all is_space w" "y \<noteq> []"
    unfolding answer_follows_def by (elim exE conjE)
  from s(1,2) have "list_all (in_cls Space) (take (length w) s)" by (simp add: all_Space)
  from rmatch_Seq_Star_None [OF n this] s(1)
  have "rmatch (Seq (Lit ''A:'') (Seq (Star Space) answer_rx)) (''A:'' @ y) c ?k = None" by simp
  then have m: "rmatch (Seq (Star Space) answer_rx) y c ?k = None"
    by (simp only: rmatch_Seq_Lit_append)
  have "list_all (in_cls Space) (take 0 y)" by simp
  from rmatch_Seq_Star_None [OF m this] have "rmatch answer_rx y c ?k = None" by simp
  with answer_rx_complete [OF s(3), where c = c] show False by simp
qed

lemma marker_rx_sound:
  assumes "rmatch marker_rx s c (\<lambda>s' c'. Some (s', c')) = Some res"
  shows "answer_follows s"
proof -
  let ?k = "\<lambda>s' (c' :: captures). Some (s', c')"
  from assms have "rmatch (Seq (Star Space) (Seq (Lit ''A:'') (Seq (Star Space)
      (Seq (Group 2 (PlusLazy AnyChar)) (Lookahead (Alt (Lit ''Q:'') End)))))) s c ?k = Some res"
    by (simp only: marker_rx_def answer_rx_def)
  from rmatch_Seq_Star [OF this] obtain w s1 where s1: "s = w @ s1" "list_all (in_cls Space) w"
    "rmatch (Seq (Lit ''A:'') (Seq (Star Space)
      (Seq (Group 2 (PlusLazy AnyChar)) (Lookahead (Alt (Lit ''Q:'') End))))) s1 c ?k = Some res"
    by (elim exE conjE)
  from rmatch_Seq_Lit [OF s1(3)] obtain s2 where s2: "s1 = ''A:'' @ s2"
    "rmatch (Seq (Star Space)
      (Seq (Group 2 (PlusLazy AnyChar)) (Lookahead (Alt (Lit ''Q:'') End)))) s2 c ?k = Some res"
    by (elim exE conjE)
  from rmatch_Seq_Star [OF s2(2)] obtain w3 s3 where s3: "s2 = w3 @ s3"
    "rmatch (Seq (Group 2 (PlusLazy AnyChar)) (Lookahead (Alt (Lit ''Q:'') End))) s3 c ?k = Some res"
    by (elim exE conjE)
  from rmatch_Seq_Group_PlusLazy [OF s3(2)] obtain a s4 where "s3 = a @ s4" "a \<noteq> []"
    by (elim exE conjE)
  with s3(1) have "s2 \<noteq> []" by simp
  with s1(1,2) s2(1) have "s = w @ ''A:'' @ s2 \<and> list_all is_space w \<and> s2 \<noteq> []"
    by (simp add: all_Space)
  then show ?thesis unfolding answer_follows_def by (intro exI)
qed

lemma question_rx_complete:
  assumes "question_follows s"
  shows "rmatch question_rx s c (\<lambda>s' c'. Some (s', c')) \<noteq> None"
proof
  let ?k = "\<lambda>s' (c' :: captures). Some (s', c')"
  assume "rmatch question_rx s c ?k = None"
  then have n: "rmatch (Seq (Group 1 (PlusLazy AnyChar)) marker_rx) s c ?k = None"
    by (simp only: question_rx_def)
  from assms obtain x y where s: "s = x @ ''A:'' @ y" "x \<noteq> []" "y \<noteq> []"
    unfolding question_follows_def by (elim exE conjE)
  from s(1,2) have "0 < length x" "length x \<le> length s" by simp_all
  from rmatch_Seq_Group_PlusLazy_None [OF n this all_AnyChar] s(1)
  have "rmatch marker_rx (''A:'' @ y) (c(1 \<mapsto> x)) ?k = None" by simp
  moreover from s(3) have "''A:'' @ y = [] @ ''A:'' @ y \<and> list_all is_space [] \<and> y \<noteq> []" by simp
  then have "answer_follows (''A:'' @ y)" unfolding answer_follows_def by (intro exI)
  ultimately show False using marker_rx_complete [where s = "''A:'' @ y" and c = "c(1 \<mapsto> x)"] by simp
qed

lemma question_rx_sound:
  assumes "rmatch question_rx s c (\<lambda>s' c'. Some (s', c')) = Some res"
  shows "question_follows s"
proof -
  let ?k = "\<lambda>s' (c' :: captures). Some (s', c')"
  from assms have "rmatch (Seq (Group 1 (PlusLazy AnyChar)) marker_rx) s c ?k = Some res"
    by (simp only: question_rx_def)
  from rmatch_Seq_Group_PlusLazy [OF this] obtain q s1 where s1: "s = q @ s1" "q \<noteq> []"
    "rmatch marker_rx s1 (c(1 \<mapsto> q)) ?k = Some res" by (elim exE conjE)
  from marker_rx_sound [OF s1(3)] obtain w y where "s1 = w @ ''A:'' @ y" "y \<noteq> []"
    unfolding answer_follows_def by (elim exE conjE)
  with s1(1,2) have "s = (q @ w) @ ''A:'' @ y \<and> q @ w \<noteq> [] \<and> y \<noteq> []" by simp
  then show ?thesis unfolding question_follows_def by (intro exI)
qed

lemma no_question_in_nothing: "\<not> question_follows []"
  by (simp add: question_follows_def)

lemma front_complete:
  assumes "unit_at_front s"
  shows "match_here flashcard_rx s \<noteq> None"
proof
  let ?k = "\<lambda>s' (c' :: captures). Some (s', c')"
  assume n: "match_here flashcard_rx s = None"
  from assms obtain x y where s: "s = ''Q:'' @ x @ ''A:'' @ y" "x \<noteq> []" "y \<noteq> []"
    unfolding unit_at_front_def by (elim exE conjE)
  from n have "rmatch (Seq (Lit ''Q:'') (Seq (Star Space) question_rx)) (''Q:'' @ x @ ''A:'' @ y)
      Map.empty ?k = None"
    by (simp only: match_here_def flashcard_rx_parts s(1))
  then have m: "rmatch (Seq (Star Space) question_rx) (x @ ''A:'' @ y) Map.empty ?k = None"
    by (simp only: rmatch_Seq_Lit_append)
  have "list_all (in_cls Space) (take 0 (x @ ''A:'' @ y))" by simp
  from rmatch_Seq_Star_None [OF m this]
  have "rmatch question_rx (x @ ''A:'' @ y) Map.empty ?k = None" by simp
  moreover from s(2,3) have "x @ ''A:'' @ y = x @ ''A:'' @ y \<and> x \<noteq> [] \<and> y \<noteq> []" by simp
  then have "question_follows (x @ ''A:'' @ y)" unfolding question_follows_def by (intro exI)
  ultimately show False
    using question_rx_complete [where s = "x @ ''A:'' @ y" and c = Map.empty] by simp
qed

lemma front_sound:
  assumes "match_here flashcard_rx s = Some m"
  shows "unit_at_front s"
proof -
  obtain rest c where "m = (rest, c)" by (cases m)
  with assms have "match_here flashcard_rx s = Some (rest, c)" by simp
  from match_here_flashcard_rx [OF this] obtain w1 q w2 w3 a where
    u: "s = ''Q:'' @ w1 @ q @ w2 @ ''A:'' @ w3 @ a @ rest" "q \<noteq> []" "a \<noteq> []"
    by (elim exE conjE)
  then have "s = ''Q:'' @ (w1 @ q @ w2) @ ''A:'' @ (w3 @ a @ rest) \<and> w1 @ q @ w2 \<noteq> [] \<and>
      w3 @ a @ rest \<noteq> []" by simp
  then show ?thesis unfolding unit_at_front_def by (intro exI)
qed


lemma match_here_flashcard_rx_first:
  assumes "match_here flashcard_rx t = Some (rest, c)"
  shows "\<exists>w1 q w2 w3 a. t = ''Q:'' @ w1 @ q @ w2 @ ''A:'' @ w3 @ a @ rest
           \<and> list_all is_space w1 \<and> list_all is_space w2 \<and> list_all is_space w3
           \<and> q \<noteq> [] \<and> a \<noteq> [] \<and> (rest = [] \<or> prefix ''Q:'' rest)
           \<and> (\<forall>n. 0 < n \<and> list_all is_space (take n (q @ w2 @ ''A:'' @ w3 @ a @ rest)) \<longrightarrow>
                 \<not> question_follows (drop n (q @ w2 @ ''A:'' @ w3 @ a @ rest)))
           \<and> (\<forall>m. 0 < m \<and> m < length q \<longrightarrow>
                 \<not> answer_follows (drop m (q @ w2 @ ''A:'' @ w3 @ a @ rest)))
           \<and> (is_space (hd a) \<longrightarrow> length a = 1 \<and> rest = [])
           \<and> (\<forall>m. 0 < m \<and> m < length a \<longrightarrow> \<not> prefix ''Q:'' (drop m (a @ rest)))
           \<and> c 1 = Some q \<and> c 2 = Some a"
proof -
  let ?k = "\<lambda>s' (c' :: captures). Some (s', c')"
  let ?r7 = "Lookahead (Alt (Lit ''Q:'') End)"
  let ?r5 = "Seq (Star Space) answer_rx"
  let ?r4 = "Seq (Lit ''A:'') ?r5"
  from assms have "rmatch (Seq (Lit ''Q:'') (Seq (Star Space) question_rx)) t Map.empty ?k
      = Some (rest, c)"
    by (simp only: match_here_def flashcard_rx_parts)
  from rmatch_Seq_Lit [OF this] obtain t1 where t1: "t = ''Q:'' @ t1"
    "rmatch (Seq (Star Space) question_rx) t1 Map.empty ?k = Some (rest, c)"
    by (elim exE conjE)
  from rmatch_Seq_Star_first [OF t1(2)] obtain w1 v where v: "t1 = w1 @ v"
    "list_all (in_cls Space) w1" "rmatch question_rx v Map.empty ?k = Some (rest, c)"
    "\<forall>n. 0 < n \<and> n \<le> length v \<and> list_all (in_cls Space) (take n v) \<longrightarrow>
       rmatch question_rx (drop n v) Map.empty ?k = None"
    by (elim exE conjE)
  from v(3) have "rmatch (Seq (Group 1 (PlusLazy AnyChar)) marker_rx) v Map.empty ?k = Some (rest, c)"
    by (simp only: question_rx_def)
  from rmatch_Seq_Group_PlusLazy [OF this] obtain q t3 where t3: "v = q @ t3" "q \<noteq> []"
    "rmatch marker_rx t3 [1 \<mapsto> q] ?k = Some (rest, c)"
    "\<forall>m. 0 < m \<and> m < length q \<longrightarrow> rmatch marker_rx (drop m v) [1 \<mapsto> take m v] ?k = None"
    by (elim exE conjE)
  from t3(3) have "rmatch (Seq (Star Space) ?r4) t3 [1 \<mapsto> q] ?k = Some (rest, c)"
    by (simp only: marker_rx_def)
  from rmatch_Seq_Star [OF this] obtain w2 t4 where t4: "t3 = w2 @ t4" "list_all (in_cls Space) w2"
    "rmatch ?r4 t4 [1 \<mapsto> q] ?k = Some (rest, c)" by (elim exE conjE)
  from rmatch_Seq_Lit [OF t4(3)] obtain t5 where t5: "t4 = ''A:'' @ t5"
    "rmatch ?r5 t5 [1 \<mapsto> q] ?k = Some (rest, c)" by (elim exE conjE)
  from rmatch_Seq_Star_first [OF t5(2)] obtain w3 t6 where t6: "t5 = w3 @ t6"
    "list_all (in_cls Space) w3" "rmatch answer_rx t6 [1 \<mapsto> q] ?k = Some (rest, c)"
    "\<forall>n. 0 < n \<and> n \<le> length t6 \<and> list_all (in_cls Space) (take n t6) \<longrightarrow>
       rmatch answer_rx (drop n t6) [1 \<mapsto> q] ?k = None"
    by (elim exE conjE)
  from t6(3) have "rmatch (Seq (Group 2 (PlusLazy AnyChar)) ?r7) t6 [1 \<mapsto> q] ?k = Some (rest, c)"
    by (simp only: answer_rx_def)
  from rmatch_Seq_Group_PlusLazy [OF this] obtain a t7 where t7: "t6 = a @ t7" "a \<noteq> []"
    "rmatch ?r7 t7 [1 \<mapsto> q, 2 \<mapsto> a] ?k = Some (rest, c)"
    "\<forall>m. 0 < m \<and> m < length a \<longrightarrow> rmatch ?r7 (drop m t6) ([1 \<mapsto> q](2 \<mapsto> take m t6)) ?k = None"
    by (elim exE conjE)
  from t7(3) have fin: "prefix ''Q:'' t7 \<or> t7 = []" "rest = t7" "c = [1 \<mapsto> q, 2 \<mapsto> a]"
    unfolding rmatch_Lookahead_Lit_End by (auto split: if_splits)
  have veq: "v = q @ w2 @ ''A:'' @ w3 @ a @ rest"
    using t3(1) t4(1) t5(1) t6(1) t7(1) fin(2) by simp
  have greedy1: "\<forall>n. 0 < n \<and> list_all is_space (take n v) \<longrightarrow> \<not> question_follows (drop n v)"
  proof (intro allI impI)
    fix n assume n: "0 < n \<and> list_all is_space (take n v)"
    show "\<not> question_follows (drop n v)"
    proof (cases "n \<le> length v")
      case True
      with n have "0 < n \<and> n \<le> length v \<and> list_all (in_cls Space) (take n v)"
        by (simp add: all_Space)
      with v(4) have "rmatch question_rx (drop n v) Map.empty ?k = None" by (elim allE impE)
      with question_rx_complete [where s = "drop n v" and c = Map.empty] show ?thesis by auto
    next
      case False
      then have "drop n v = []" by simp
      then show ?thesis by (simp only: no_question_in_nothing not_False_eq_True)
    qed
  qed
  have lazy1: "\<forall>m. 0 < m \<and> m < length q \<longrightarrow> \<not> answer_follows (drop m v)"
  proof (intro allI impI)
    fix m assume "0 < m \<and> m < length q"
    with t3(4) have "rmatch marker_rx (drop m v) [1 \<mapsto> take m v] ?k = None" by (elim allE impE)
    with marker_rx_complete [where s = "drop m v" and c = "[1 \<mapsto> take m v]"]
    show "\<not> answer_follows (drop m v)" by auto
  qed
  have greedy3: "is_space (hd a) \<longrightarrow> length a = 1 \<and> rest = []"
  proof
    assume sp: "is_space (hd a)"
    from t7(1,2) have "take 1 t6 = [hd a]" by (cases a) simp_all
    with sp t7(1,2) have "0 < (1 :: nat) \<and> 1 \<le> length t6 \<and> list_all (in_cls Space) (take 1 t6)"
      by (cases a) simp_all
    with t6(4) have "rmatch answer_rx (drop 1 t6) [1 \<mapsto> q] ?k = None" by (elim allE impE)
    with answer_rx_complete [where s = "drop 1 t6" and c = "[1 \<mapsto> q]"] have "drop 1 t6 = []"
      by auto
    with t7(1,2) fin(2) show "length a = 1 \<and> rest = []" by (cases a) simp_all
  qed
  have lazy2: "\<forall>m. 0 < m \<and> m < length a \<longrightarrow> \<not> prefix ''Q:'' (drop m (a @ rest))"
  proof (intro allI impI)
    fix m assume "0 < m \<and> m < length a"
    with t7(4) have "rmatch ?r7 (drop m t6) ([1 \<mapsto> q](2 \<mapsto> take m t6)) ?k = None"
      by (elim allE impE)
    then have "\<not> prefix ''Q:'' (drop m t6)"
      unfolding rmatch_Lookahead_Lit_End by (auto split: if_splits)
    with t7(1) fin(2) show "\<not> prefix ''Q:'' (drop m (a @ rest))" by simp
  qed
  have shape: "t = ''Q:'' @ w1 @ q @ w2 @ ''A:'' @ w3 @ a @ rest"
    using t1(1) v(1) veq by simp
  have caps: "c 1 = Some q" "c 2 = Some a" using fin(3) by simp_all
  have sps: "list_all is_space w1" "list_all is_space w2" "list_all is_space w3"
    using v(2) t4(2) t6(2) by (simp_all add: all_Space)
  have fol: "rest = [] \<or> prefix ''Q:'' rest" using fin(1,2) by blast
  from shape sps t3(2) t7(2) fol greedy1 lazy1 greedy3 lazy2 caps
  have "t = ''Q:'' @ w1 @ q @ w2 @ ''A:'' @ w3 @ a @ rest
           \<and> list_all is_space w1 \<and> list_all is_space w2 \<and> list_all is_space w3
           \<and> q \<noteq> [] \<and> a \<noteq> [] \<and> (rest = [] \<or> prefix ''Q:'' rest)
           \<and> (\<forall>n. 0 < n \<and> list_all is_space (take n (q @ w2 @ ''A:'' @ w3 @ a @ rest)) \<longrightarrow>
                 \<not> question_follows (drop n (q @ w2 @ ''A:'' @ w3 @ a @ rest)))
           \<and> (\<forall>m. 0 < m \<and> m < length q \<longrightarrow>
                 \<not> answer_follows (drop m (q @ w2 @ ''A:'' @ w3 @ a @ rest)))
           \<and> (is_space (hd a) \<longrightarrow> length a = 1 \<and> rest = [])
           \<and> (\<forall>m. 0 < m \<and> m < length a \<longrightarrow> \<not> prefix ''Q:'' (drop m (a @ rest)))
           \<and> c 1 = Some q \<and> c 2 = Some a"
    unfolding veq by (intro conjI)
  then show ?thesis by (intro exI)
qed

lemma exec_None: "exec r s = None \<Longrightarrow> match_here r (drop n s) = None"
proof (induction s arbitrary: n)
  case Nil
  then show ?case by simp
next
  case (Cons x xs)
  from Cons.prems have h: "match_here r (x # xs) = None" and e: "exec r xs = None"
    by (cases "match_here r (x # xs)"; simp)+
  show ?case
  proof (cases n)
    case 0
    with h show ?thesis by simp
  next
    case (Suc m)
    with Cons.IH [OF e] show ?thesis by simp
  qed
qed

lemma exec_first:
  "exec r s = Some m \<Longrightarrow>
     \<exists>pre t. s = pre @ t \<and> match_here r t = Some m \<and>
       (\<forall>n < length pre. match_here r (drop n s) = None)"
proof (induction s)
  case Nil
  then have "[] = [] @ [] \<and> match_here r [] = Some m \<and>
      (\<forall>n < length ([] :: string). match_here r (drop n []) = None)" by simp
  then show ?case by (intro exI)
next
  case (Cons x xs)
  show ?case
  proof (cases "match_here r (x # xs)")
    case None
    with Cons.prems have "exec r xs = Some m" by simp
    from Cons.IH [OF this] obtain pre t where p: "xs = pre @ t" "match_here r t = Some m"
      "\<forall>n < length pre. match_here r (drop n xs) = None" by (elim exE conjE)
    have "\<forall>n < length (x # pre). match_here r (drop n (x # xs)) = None"
    proof (intro allI impI)
      fix n assume n: "n < length (x # pre)"
      show "match_here r (drop n (x # xs)) = None"
      proof (cases n)
        case 0
        with None show ?thesis by simp
      next
        case (Suc j)
        with n p(3) show ?thesis by simp
      qed
    qed
    with p(1,2) have "x # xs = (x # pre) @ t \<and> match_here r t = Some m \<and>
        (\<forall>n < length (x # pre). match_here r (drop n (x # xs)) = None)" by simp
    then show ?thesis by (intro exI)
  next
    case (Some m')
    with Cons.prems have "x # xs = [] @ (x # xs) \<and> match_here r (x # xs) = Some m \<and>
        (\<forall>n < length ([] :: string). match_here r (drop n (x # xs)) = None)" by simp
    then show ?thesis by (intro exI)
  qed
qed

lemma parse_nothing: "parseFlashcards t = [] \<longleftrightarrow> (\<forall>n. \<not> unit_at_front (drop n t))"
proof
  assume e: "parseFlashcards t = []"
  have "exec flashcard_rx t = None"
  proof (cases "exec flashcard_rx t")
    case None
    then show ?thesis .
  next
    case (Some m)
    then have "parseFlashcards t \<noteq> []"
      by (subst parseFlashcards.simps) (simp split: prod.splits)
    with e show ?thesis by simp
  qed
  then have "\<forall>n. match_here flashcard_rx (drop n t) = None" by (intro allI exec_None)
  with front_complete show "\<forall>n. \<not> unit_at_front (drop n t)" by blast
next
  assume a: "\<forall>n. \<not> unit_at_front (drop n t)"
  have "exec flashcard_rx t = None"
  proof (cases "exec flashcard_rx t")
    case None
    then show ?thesis .
  next
    case (Some m)
    from exec_match_here [OF this] obtain pre t' where t': "t = pre @ t'"
      "match_here flashcard_rx t' = Some m" by (elim exE conjE)
    from front_sound [OF t'(2)] t'(1) have "unit_at_front (drop (length pre) t)" by simp
    with a show ?thesis by blast
  qed
  then show "parseFlashcards t = []" by (subst parseFlashcards.simps) simp
qed

lemma parse_first_unit:
  assumes "parseFlashcards t \<noteq> []"
  shows "\<exists>pre w1 q w2 w3 a rest.
       t = pre @ ''Q:'' @ w1 @ q @ w2 @ ''A:'' @ w3 @ a @ rest \<and>
       (\<forall>n < length pre. \<not> unit_at_front (drop n t)) \<and>
       list_all is_space w1 \<and> list_all is_space w2 \<and> list_all is_space w3 \<and>
       q \<noteq> [] \<and> a \<noteq> [] \<and> (rest = [] \<or> prefix ''Q:'' rest) \<and>
       (\<forall>n. 0 < n \<and> list_all is_space (take n (q @ w2 @ ''A:'' @ w3 @ a @ rest)) \<longrightarrow>
          \<not> question_follows (drop n (q @ w2 @ ''A:'' @ w3 @ a @ rest))) \<and>
       (\<forall>m. 0 < m \<and> m < length q \<longrightarrow>
          \<not> answer_follows (drop m (q @ w2 @ ''A:'' @ w3 @ a @ rest))) \<and>
       (is_space (hd a) \<longrightarrow> length a = 1 \<and> rest = []) \<and>
       (\<forall>m. 0 < m \<and> m < length a \<longrightarrow> \<not> prefix ''Q:'' (drop m (a @ rest))) \<and>
       parseFlashcards t = \<lparr>question = trim q, answer = trim a\<rparr> # parseFlashcards rest"
proof (cases "exec flashcard_rx t")
  case None
  then have "parseFlashcards t = []" by (subst parseFlashcards.simps) simp
  with assms show ?thesis by simp
next
  case (Some m)
  obtain rest c where m: "m = (rest, c)" by (cases m)
  from Some m have e: "exec flashcard_rx t = Some (rest, c)" by simp
  from exec_first [OF e] obtain pre t' where t': "t = pre @ t'"
    "match_here flashcard_rx t' = Some (rest, c)"
    "\<forall>n < length pre. match_here flashcard_rx (drop n t) = None" by (elim exE conjE)
  have left: "\<forall>n < length pre. \<not> unit_at_front (drop n t)"
  proof (intro allI impI)
    fix n assume "n < length pre"
    with t'(3) have "match_here flashcard_rx (drop n t) = None" by (elim allE impE)
    with front_complete [where s = "drop n t"] show "\<not> unit_at_front (drop n t)" by auto
  qed
  from match_here_flashcard_rx_first [OF t'(2)] obtain w1 q w2 w3 a where u:
    "t' = ''Q:'' @ w1 @ q @ w2 @ ''A:'' @ w3 @ a @ rest"
    "list_all is_space w1" "list_all is_space w2" "list_all is_space w3"
    "q \<noteq> []" "a \<noteq> []" "rest = [] \<or> prefix ''Q:'' rest"
    "\<forall>n. 0 < n \<and> list_all is_space (take n (q @ w2 @ ''A:'' @ w3 @ a @ rest)) \<longrightarrow>
          \<not> question_follows (drop n (q @ w2 @ ''A:'' @ w3 @ a @ rest))"
    "\<forall>m. 0 < m \<and> m < length q \<longrightarrow>
          \<not> answer_follows (drop m (q @ w2 @ ''A:'' @ w3 @ a @ rest))"
    "is_space (hd a) \<longrightarrow> length a = 1 \<and> rest = []"
    "\<forall>m. 0 < m \<and> m < length a \<longrightarrow> \<not> prefix ''Q:'' (drop m (a @ rest))"
    "c 1 = Some q" "c 2 = Some a" by (elim exE conjE)
  from e u(12,13) have p: "parseFlashcards t = \<lparr>question = trim q, answer = trim a\<rparr> # parseFlashcards rest"
    by (subst parseFlashcards.simps) (simp add: group_text_def)
  from t'(1) u(1) have s: "t = pre @ ''Q:'' @ w1 @ q @ w2 @ ''A:'' @ w3 @ a @ rest" by simp
  from s left u(2-11) p have "t = pre @ ''Q:'' @ w1 @ q @ w2 @ ''A:'' @ w3 @ a @ rest \<and>
       (\<forall>n < length pre. \<not> unit_at_front (drop n t)) \<and>
       list_all is_space w1 \<and> list_all is_space w2 \<and> list_all is_space w3 \<and>
       q \<noteq> [] \<and> a \<noteq> [] \<and> (rest = [] \<or> prefix ''Q:'' rest) \<and>
       (\<forall>n. 0 < n \<and> list_all is_space (take n (q @ w2 @ ''A:'' @ w3 @ a @ rest)) \<longrightarrow>
          \<not> question_follows (drop n (q @ w2 @ ''A:'' @ w3 @ a @ rest))) \<and>
       (\<forall>m. 0 < m \<and> m < length q \<longrightarrow>
          \<not> answer_follows (drop m (q @ w2 @ ''A:'' @ w3 @ a @ rest))) \<and>
       (is_space (hd a) \<longrightarrow> length a = 1 \<and> rest = []) \<and>
       (\<forall>m. 0 < m \<and> m < length a \<longrightarrow> \<not> prefix ''Q:'' (drop m (a @ rest))) \<and>
       parseFlashcards t = \<lparr>question = trim q, answer = trim a\<rparr> # parseFlashcards rest"
    by (intro conjI)
  then show ?thesis by (intro exI)
qed

text \<open>
  Claim C3. The text \<^verbatim>\<open>Q: A? A: B Q: C? A: D\<close> parses to the two cards \<open>A?\<close>/\<open>B\<close>
  and \<open>C?\<close>/\<open>D\<close>. In general a text yields no card exactly when no unit stands at any
  of its positions. Otherwise it has the shape \<open>pre Q: w1 q w2 A: w3 a rest\<close> where
  no unit stands at a position inside \<open>pre\<close>; \<open>w1\<close>, \<open>w2\<close>, \<open>w3\<close> are white
  space; the spans \<open>q\<close> and \<open>a\<close> are not empty; \<open>w1\<close> is as long as it can be with a
  question still following; \<open>q\<close> is as short as it can be with an answer following;
  \<open>w3\<close> takes all the white space after \<^verbatim>\<open>A:\<close>, but for one last character when
  nothing else is left for the answer; and \<open>a\<close> ends at the end of the text or at the
  first \<^verbatim>\<open>Q:\<close> after its first character. The first card is \<open>trim q\<close>/\<open>trim a\<close>,
  and the cards after it are those of \<open>rest\<close>. \<^const>\<open>trim\<close> removes white space at
  both ends and nothing else.
\<close>

theorem parse_units:
  "parseFlashcards ''Q: A? A: B Q: C? A: D'' =
     [\<lparr>question = ''A?'', answer = ''B''\<rparr>, \<lparr>question = ''C?'', answer = ''D''\<rparr>] \<and>
   (parseFlashcards t = [] \<longleftrightarrow> (\<forall>n. \<not> unit_at_front (drop n t))) \<and>
   (parseFlashcards t \<noteq> [] \<longrightarrow>
    (\<exists>pre w1 q w2 w3 a rest.
       t = pre @ ''Q:'' @ w1 @ q @ w2 @ ''A:'' @ w3 @ a @ rest \<and>
       (\<forall>n < length pre. \<not> unit_at_front (drop n t)) \<and>
       list_all is_space w1 \<and> list_all is_space w2 \<and> list_all is_space w3 \<and>
       q \<noteq> [] \<and> a \<noteq> [] \<and> (rest = [] \<or> prefix ''Q:'' rest) \<and>
       (\<forall>n. 0 < n \<and> list_all is_space (take n (q @ w2 @ ''A:'' @ w3 @ a @ rest)) \<longrightarrow>
          \<not> question_follows (drop n (q @ w2 @ ''A:'' @ w3 @ a @ rest))) \<and>
       (\<forall>m. 0 < m \<and> m < length q \<longrightarrow>
          \<not> answer_follows (drop m (q @ w2 @ ''A:'' @ w3 @ a @ rest))) \<and>
       (is_space (hd a) \<longrightarrow> length a = 1 \<and> rest = []) \<and>
       (\<forall>m. 0 < m \<and> m < length a \<longrightarrow> \<not> prefix ''Q:'' (drop m (a @ rest))) \<and>
       parseFlashcards t = \<lparr>question = trim q, answer = trim a\<rparr> # parseFlashcards rest)) \<and>
   (\<exists>l r. s = l @ trim s @ r \<and> list_all is_space l \<and> list_all is_space r \<and>
      (trim s = [] \<or> (\<not> is_space (hd (trim s)) \<and> \<not> is_space (last (trim s)))))"
proof (intro conjI)
  show "parseFlashcards ''Q: A? A: B Q: C? A: D'' =
     [\<lparr>question = ''A?'', answer = ''B''\<rparr>, \<lparr>question = ''C?'', answer = ''D''\<rparr>]"
    by (simp add: parseFlashcards.simps flashcard_rx_def match_here_def is_space_def trim_def
        group_text_def)
next
  show "parseFlashcards t = [] \<longleftrightarrow> (\<forall>n. \<not> unit_at_front (drop n t))"
    by (rule parse_nothing)
next
  show "parseFlashcards t \<noteq> [] \<longrightarrow>
    (\<exists>pre w1 q w2 w3 a rest.
       t = pre @ ''Q:'' @ w1 @ q @ w2 @ ''A:'' @ w3 @ a @ rest \<and>
       (\<forall>n < length pre. \<not> unit_at_front (drop n t)) \<and>
       list_all is_space w1 \<and> list_all is_space w2 \<and> list_all is_space w3 \<and>
       q \<noteq> [] \<and> a \<noteq> [] \<and> (rest = [] \<or> prefix ''Q:'' rest) \<and>
       (\<forall>n. 0 < n \<and> list_all is_space (take n (q @ w2 @ ''A:'' @ w3 @ a @ rest)) \<longrightarrow>
          \<not> question_follows (drop n (q @ w2 @ ''A:'' @ w3 @ a @ rest))) \<and>
       (\<forall>m. 0 < m \<and> m < length q \<longrightarrow>
          \<not> answer_follows (drop m (q @ w2 @ ''A:'' @ w3 @ a @ rest))) \<and>
       (is_space (hd a) \<longrightarrow> length a = 1 \<and> rest = []) \<and>
       (\<forall>m. 0 < m \<and> m < length a \<longrightarrow> \<not> prefix ''Q:'' (drop m (a @ rest))) \<and>
       parseFlashcards t = \<lparr>question = trim q, answer = trim a\<rparr> # parseFlashcards rest)"
    by (intro impI parse_first_unit)
next
  show "\<exists>l r. s = l @ trim s @ r \<and> list_all is_space l \<and> list_all is_space r \<and>
      (trim s = [] \<or> (\<not> is_space (hd (trim s)) \<and> \<not> is_space (last (trim s))))"
    by (rule trim_spec)
qed

theorem parse_units_witness:
  "(\<exists>pre w1 q w2 w3 a rest.
       ''xQ:  who? A: me Q: b A: c'' = pre @ ''Q:'' @ w1 @ q @ w2 @ ''A:'' @ w3 @ a @ rest \<and>
       (\<forall>n < length pre. \<not> unit_at_front (drop n ''xQ:  who? A: me Q: b A: c'')) \<and>
       list_all is_space w1 \<and> list_all is_space w2 \<and> list_all is_space w3 \<and>
       q \<noteq> [] \<and> a \<noteq> [] \<and> (rest = [] \<or> prefix ''Q:'' rest) \<and>
       (\<forall>n. 0 < n \<and> list_all is_space (take n (q @ w2 @ ''A:'' @ w3 @ a @ rest)) \<longrightarrow>
          \<not> question_follows (drop n (q @ w2 @ ''A:'' @ w3 @ a @ rest))) \<and>
       (\<forall>m. 0 < m \<and> m < length q \<longrightarrow>
          \<not> answer_follows (drop m (q @ w2 @ ''A:'' @ w3 @ a @ rest))) \<and>
       (is_space (hd a) \<longrightarrow> length a = 1 \<and> rest = []) \<and>
       (\<forall>m. 0 < m \<and> m < length a \<longrightarrow> \<not> prefix ''Q:'' (drop m (a @ rest))) \<and>
       parseFlashcards ''xQ:  who? A: me Q: b A: c'' =
         \<lparr>question = trim q, answer = trim a\<rparr> # parseFlashcards rest) \<and>
   (\<forall>n. \<not> unit_at_front (drop n ''Q: A:''))"
proof
  have "parseFlashcards ''xQ:  who? A: me Q: b A: c'' \<noteq> []"
    by (simp add: parseFlashcards.simps flashcard_rx_def match_here_def is_space_def trim_def
        group_text_def)
  with parse_units [where t = "''xQ:  who? A: me Q: b A: c''" and s = "[]"]
  show "\<exists>pre w1 q w2 w3 a rest.
       ''xQ:  who? A: me Q: b A: c'' = pre @ ''Q:'' @ w1 @ q @ w2 @ ''A:'' @ w3 @ a @ rest \<and>
       (\<forall>n < length pre. \<not> unit_at_front (drop n ''xQ:  who? A: me Q: b A: c'')) \<and>
       list_all is_space w1 \<and> list_all is_space w2 \<and> list_all is_space w3 \<and>
       q \<noteq> [] \<and> a \<noteq> [] \<and> (rest = [] \<or> prefix ''Q:'' rest) \<and>
       (\<forall>n. 0 < n \<and> list_all is_space (take n (q @ w2 @ ''A:'' @ w3 @ a @ rest)) \<longrightarrow>
          \<not> question_follows (drop n (q @ w2 @ ''A:'' @ w3 @ a @ rest))) \<and>
       (\<forall>m. 0 < m \<and> m < length q \<longrightarrow>
          \<not> answer_follows (drop m (q @ w2 @ ''A:'' @ w3 @ a @ rest))) \<and>
       (is_space (hd a) \<longrightarrow> length a = 1 \<and> rest = []) \<and>
       (\<forall>m. 0 < m \<and> m < length a \<longrightarrow> \<not> prefix ''Q:'' (drop m (a @ rest))) \<and>
       parseFlashcards ''xQ:  who? A: me Q: b A: c'' =
         \<lparr>question = trim q, answer = trim a\<rparr> # parseFlashcards rest"
    by (elim conjE impE)
next
  have e: "parseFlashcards ''Q: A:'' = []"
    by (simp add: parseFlashcards.simps flashcard_rx_def match_here_def is_space_def)
  from parse_units [where t = "''Q: A:''" and s = "[]"]
  have "parseFlashcards ''Q: A:'' = [] \<longleftrightarrow> (\<forall>n. \<not> unit_at_front (drop n ''Q: A:''))"
    by (elim conjE)
  from this e show "\<forall>n. \<not> unit_at_front (drop n ''Q: A:'')" by (rule iffD1)
qed

text \<open>
  Two texts at the edge of these conditions. A span is not empty, but what is left of it
  after trimming may be: in \<^verbatim>\<open>Q: A: x\<close> the question is the blank before \<^verbatim>\<open>A:\<close>. And
  an answer ends at the first \<^verbatim>\<open>Q:\<close> after its first character, so that an answer
  which begins with \<^verbatim>\<open>Q:\<close> runs on to the next one or to the end of the text.
\<close>

lemma parse_edge_cases:
  "parseFlashcards ''Q: A: x'' = [\<lparr>question = [], answer = ''x''\<rparr>] \<and>
   parseFlashcards ''Q: a A: Q: b A: c'' = [\<lparr>question = ''a'', answer = ''Q: b A: c''\<rparr>]"
  by (simp add: parseFlashcards.simps flashcard_rx_def match_here_def is_space_def trim_def
      group_text_def)

subsection \<open>The first unit is determined\<close>

text \<open>
  The conditions on the first unit, collected in \<^const>\<open>first_unit\<close>, leave no choice: two
  splits of one text that meet them agree on \<open>q\<close>, \<open>a\<close> and \<open>rest\<close>. So a function
  that yields no card exactly for the texts without a unit, and otherwise the trimmed first
  unit followed by what it yields for \<open>rest\<close>, is \<^verbatim>\<open>parseFlashcards\<close>.
\<close>

lemma same_split: "xs @ r = ys @ r' \<Longrightarrow> length xs = length ys \<Longrightarrow> xs = ys \<and> r = r'"
  by simp

lemma leftmost_le:
  assumes "t = pre @ ''Q:'' @ x @ ''A:'' @ y" and "x \<noteq> []" and "y \<noteq> []"
    and "\<forall>n < length pre'. \<not> unit_at_front (drop n t)"
  shows "length pre' \<le> length pre"
proof (rule ccontr)
  assume "\<not> length pre' \<le> length pre"
  then have "length pre < length pre'" by simp
  with assms(4) have "\<not> unit_at_front (drop (length pre) t)" by (elim allE impE)
  moreover from assms(1) have "drop (length pre) t = ''Q:'' @ x @ ''A:'' @ y" by simp
  moreover from assms(2,3) have "''Q:'' @ x @ ''A:'' @ y = ''Q:'' @ x @ ''A:'' @ y \<and> x \<noteq> [] \<and> y \<noteq> []"
    by simp
  then have "unit_at_front (''Q:'' @ x @ ''A:'' @ y)" unfolding unit_at_front_def by (intro exI)
  ultimately show False by simp
qed

lemma greedy_le:
  assumes "w @ v = w' @ v'" and "list_all is_space w'" and "question_follows v'"
    and "\<forall>n. 0 < n \<and> list_all is_space (take n v) \<longrightarrow> \<not> question_follows (drop n v)"
  shows "length w' \<le> length w"
proof (rule ccontr)
  assume "\<not> length w' \<le> length w"
  then have lt: "length w < length w'" by simp
  define n where "n = length w' - length w"
  from assms(1) have "drop (length w) (w @ v) = drop (length w) (w' @ v')" by simp
  with lt have v: "v = drop (length w) w' @ v'" by simp
  from lt have len: "length (drop (length w) w') = n" by (simp add: n_def)
  from v len have tk: "take n v = drop (length w) w'" and dr: "drop n v = v'" by simp_all
  from assms(2) have "list_all is_space (drop (length w) w')"
    by (auto simp: list_all_iff dest: in_set_dropD)
  with tk lt have "0 < n \<and> list_all is_space (take n v)" by (simp add: n_def)
  with assms(4) have "\<not> question_follows (drop n v)" by (elim allE impE)
  with dr assms(3) show False by simp
qed

lemma lazy_question_le:
  assumes "q @ u = q' @ u'" and "q' \<noteq> []" and "answer_follows u'"
    and "\<forall>m. 0 < m \<and> m < length q \<longrightarrow> \<not> answer_follows (drop m (q @ u))"
  shows "length q \<le> length q'"
proof (rule ccontr)
  assume "\<not> length q \<le> length q'"
  with assms(2) have "0 < length q' \<and> length q' < length q" by simp
  with assms(4) have "\<not> answer_follows (drop (length q') (q @ u))" by (elim allE impE)
  moreover have "drop (length q') (q @ u) = u'" by (simp only: assms(1)) simp
  ultimately show False using assms(3) by simp
qed

lemma spaces_then_marker:
  assumes "list_all is_space w" and "list_all is_space w'" and "w @ ''A:'' @ y = w' @ ''A:'' @ y'"
  shows "w = w' \<and> y = y'"
proof -
  have a: "\<not> is_space CHR ''A''" by (simp add: is_space_def)
  have "takeWhile is_space (w @ ''A:'' @ y) = w" using assms(1) a
    by (simp add: takeWhile_append2 list_all_iff)
  moreover have "takeWhile is_space (w' @ ''A:'' @ y') = w'" using assms(2) a
    by (simp add: takeWhile_append2 list_all_iff)
  ultimately have "w = w'" by (simp only: assms(3))
  with assms(3) show ?thesis by simp
qed

lemma greedy_answer_le:
  assumes "w @ a @ rest = w' @ a' @ rest'" and "list_all is_space w'" and "a \<noteq> []" and "a' \<noteq> []"
    and "is_space (hd a) \<longrightarrow> length a = 1 \<and> rest = []"
  shows "length w' \<le> length w"
proof (rule ccontr)
  assume "\<not> length w' \<le> length w"
  then have lt: "length w < length w'" by simp
  from assms(3) have "(w @ a @ rest) ! length w = hd a" by (cases a) (simp_all add: nth_append)
  moreover from lt have "(w' @ a' @ rest') ! length w = w' ! length w" by (simp add: nth_append)
  ultimately have "hd a = w' ! length w" by (simp only: assms(1))
  with assms(2) lt have "is_space (hd a)" by (simp add: list_all_length)
  with assms(5) have "length a = 1" "rest = []" by simp_all
  then have "length (w @ a @ rest) = length w + 1" by simp
  moreover from assms(4) have "length w' + 1 \<le> length (w' @ a' @ rest')" by (cases a') simp_all
  moreover from assms(1) have "length (w @ a @ rest) = length (w' @ a' @ rest')" by (rule arg_cong)
  ultimately show False using lt by linarith
qed

lemma lazy_answer_le:
  assumes "a @ rest = a' @ rest'" and "a \<noteq> []" and "rest = [] \<or> prefix ''Q:'' rest"
    and "\<forall>m. 0 < m \<and> m < length a' \<longrightarrow> \<not> prefix ''Q:'' (drop m (a' @ rest'))"
  shows "length a' \<le> length a"
proof (rule ccontr)
  assume "\<not> length a' \<le> length a"
  with assms(2) have lt: "0 < length a \<and> length a < length a'" by simp
  with assms(4) have "\<not> prefix ''Q:'' (drop (length a) (a' @ rest'))" by (elim allE impE)
  moreover have "drop (length a) (a' @ rest') = rest" by (simp only: assms(1) [symmetric]) simp
  ultimately have "rest = []" using assms(3) by simp
  then have "length (a @ rest) = length a" by simp
  moreover have "length a' \<le> length (a' @ rest')" by simp
  moreover from assms(1) have "length (a @ rest) = length (a' @ rest')" by (rule arg_cong)
  ultimately show False using lt by linarith
qed

lemma first_unit_unique:
  assumes "first_unit t q a rest" and "first_unit t q' a' rest'"
  shows "q = q' \<and> a = a' \<and> rest = rest'"
proof -
  from assms(1) obtain pre w1 w2 w3 where u:
    "t = pre @ ''Q:'' @ w1 @ q @ w2 @ ''A:'' @ w3 @ a @ rest"
    "\<forall>n < length pre. \<not> unit_at_front (drop n t)"
    "list_all is_space w1" "list_all is_space w2" "list_all is_space w3"
    "q \<noteq> []" "a \<noteq> []" "rest = [] \<or> prefix ''Q:'' rest"
    "\<forall>n. 0 < n \<and> list_all is_space (take n (q @ w2 @ ''A:'' @ w3 @ a @ rest)) \<longrightarrow>
           \<not> question_follows (drop n (q @ w2 @ ''A:'' @ w3 @ a @ rest))"
    "\<forall>m. 0 < m \<and> m < length q \<longrightarrow>
           \<not> answer_follows (drop m (q @ w2 @ ''A:'' @ w3 @ a @ rest))"
    "is_space (hd a) \<longrightarrow> length a = 1 \<and> rest = []"
    "\<forall>m. 0 < m \<and> m < length a \<longrightarrow> \<not> prefix ''Q:'' (drop m (a @ rest))"
    unfolding first_unit_def by (elim exE conjE)
  from assms(2) obtain pre' w1' w2' w3' where u':
    "t = pre' @ ''Q:'' @ w1' @ q' @ w2' @ ''A:'' @ w3' @ a' @ rest'"
    "\<forall>n < length pre'. \<not> unit_at_front (drop n t)"
    "list_all is_space w1'" "list_all is_space w2'" "list_all is_space w3'"
    "q' \<noteq> []" "a' \<noteq> []" "rest' = [] \<or> prefix ''Q:'' rest'"
    "\<forall>n. 0 < n \<and> list_all is_space (take n (q' @ w2' @ ''A:'' @ w3' @ a' @ rest')) \<longrightarrow>
           \<not> question_follows (drop n (q' @ w2' @ ''A:'' @ w3' @ a' @ rest'))"
    "\<forall>m. 0 < m \<and> m < length q' \<longrightarrow>
           \<not> answer_follows (drop m (q' @ w2' @ ''A:'' @ w3' @ a' @ rest'))"
    "is_space (hd a') \<longrightarrow> length a' = 1 \<and> rest' = []"
    "\<forall>m. 0 < m \<and> m < length a' \<longrightarrow> \<not> prefix ''Q:'' (drop m (a' @ rest'))"
    unfolding first_unit_def by (elim exE conjE)
  define y where "y = w3 @ a @ rest"
  define y' where "y' = w3' @ a' @ rest'"
  define x where "x = w2 @ ''A:'' @ y"
  define x' where "x' = w2' @ ''A:'' @ y'"
  define v where "v = q @ x"
  define v' where "v' = q' @ x'"
  have yn: "y \<noteq> []" "y' \<noteq> []" using u(7) u'(7) by (simp_all add: y_def y'_def)
  have af: "answer_follows x" "answer_follows x'"
    unfolding answer_follows_def x_def x'_def using u(4) u'(4) yn by blast+
  have qf: "question_follows v" "question_follows v'"
  proof -
    from u(6) yn(1) have "v = (q @ w2) @ ''A:'' @ y \<and> q @ w2 \<noteq> [] \<and> y \<noteq> []"
      by (simp add: v_def x_def)
    then show "question_follows v" unfolding question_follows_def by (intro exI)
    from u'(6) yn(2) have "v' = (q' @ w2') @ ''A:'' @ y' \<and> q' @ w2' \<noteq> [] \<and> y' \<noteq> []"
      by (simp add: v'_def x'_def)
    then show "question_follows v'" unfolding question_follows_def by (intro exI)
  qed
  have t1: "t = pre @ ''Q:'' @ (w1 @ q @ w2) @ ''A:'' @ y" using u(1) by (simp add: y_def)
  have t2: "t = pre' @ ''Q:'' @ (w1' @ q' @ w2') @ ''A:'' @ y'" using u'(1) by (simp add: y'_def)
  have "length pre' \<le> length pre" using t1 _ yn(1) u'(2) by (rule leftmost_le) (simp add: u(6))
  moreover have "length pre \<le> length pre'"
    using t2 _ yn(2) u(2) by (rule leftmost_le) (simp add: u'(6))
  ultimately have lp: "length pre = length pre'" by simp
  have "pre @ (''Q:'' @ w1 @ v) = pre' @ (''Q:'' @ w1' @ v')"
    using u(1) u'(1) by (simp add: v_def v'_def x_def x'_def y_def y'_def)
  from same_split [OF this lp] have e1: "w1 @ v = w1' @ v'" by simp
  have g: "\<forall>n. 0 < n \<and> list_all is_space (take n v) \<longrightarrow> \<not> question_follows (drop n v)"
    using u(9) by (simp only: v_def x_def y_def)
  have g': "\<forall>n. 0 < n \<and> list_all is_space (take n v') \<longrightarrow> \<not> question_follows (drop n v')"
    using u'(9) by (simp only: v'_def x'_def y'_def)
  have "length w1' \<le> length w1" using e1 u'(3) qf(2) g by (rule greedy_le)
  moreover have "length w1 \<le> length w1'" using e1 [symmetric] u(3) qf(1) g' by (rule greedy_le)
  ultimately have "length w1 = length w1'" by simp
  from same_split [OF e1 this] have e2: "q @ x = q' @ x'" by (simp add: v_def v'_def)
  have l: "\<forall>m. 0 < m \<and> m < length q \<longrightarrow> \<not> answer_follows (drop m (q @ x))"
    using u(10) by (simp only: x_def y_def)
  have l': "\<forall>m. 0 < m \<and> m < length q' \<longrightarrow> \<not> answer_follows (drop m (q' @ x'))"
    using u'(10) by (simp only: x'_def y'_def)
  have "length q \<le> length q'" using e2 u'(6) af(2) l by (rule lazy_question_le)
  moreover have "length q' \<le> length q" using e2 [symmetric] u(6) af(1) l' by (rule lazy_question_le)
  ultimately have "length q = length q'" by simp
  from same_split [OF e2 this] have q: "q = q'" and e3: "w2 @ ''A:'' @ y = w2' @ ''A:'' @ y'"
    by (simp_all add: x_def x'_def)
  from spaces_then_marker [OF u(4) u'(4) e3] have e4: "w3 @ a @ rest = w3' @ a' @ rest'"
    by (simp add: y_def y'_def)
  have "length w3' \<le> length w3" using e4 u'(5) u(7) u'(7) u(11) by (rule greedy_answer_le)
  moreover have "length w3 \<le> length w3'"
    using e4 [symmetric] u(5) u'(7) u(7) u'(11) by (rule greedy_answer_le)
  ultimately have "length w3 = length w3'" by simp
  from same_split [OF e4 this] have e5: "a @ rest = a' @ rest'" by simp
  have "length a' \<le> length a" using e5 u(7) u(8) u'(12) by (rule lazy_answer_le)
  moreover have "length a \<le> length a'" using e5 [symmetric] u'(7) u'(8) u(12) by (rule lazy_answer_le)
  ultimately have "length a = length a'" by simp
  from same_split [OF e5 this] q show ?thesis by simp
qed

lemma first_unit_shorter: "first_unit t q a rest \<Longrightarrow> length rest < length t"
  unfolding first_unit_def by auto

lemma parse_first_unit_is:
  assumes "parseFlashcards t \<noteq> []"
  shows "\<exists>q a rest. first_unit t q a rest \<and>
           parseFlashcards t = \<lparr>question = trim q, answer = trim a\<rparr> # parseFlashcards rest"
proof -
  from parse_first_unit [OF assms] obtain pre w1 q w2 w3 a rest where u:
       "t = pre @ ''Q:'' @ w1 @ q @ w2 @ ''A:'' @ w3 @ a @ rest \<and>
       (\<forall>n < length pre. \<not> unit_at_front (drop n t)) \<and>
       list_all is_space w1 \<and> list_all is_space w2 \<and> list_all is_space w3 \<and>
       q \<noteq> [] \<and> a \<noteq> [] \<and> (rest = [] \<or> prefix ''Q:'' rest) \<and>
       (\<forall>n. 0 < n \<and> list_all is_space (take n (q @ w2 @ ''A:'' @ w3 @ a @ rest)) \<longrightarrow>
          \<not> question_follows (drop n (q @ w2 @ ''A:'' @ w3 @ a @ rest))) \<and>
       (\<forall>m. 0 < m \<and> m < length q \<longrightarrow>
          \<not> answer_follows (drop m (q @ w2 @ ''A:'' @ w3 @ a @ rest))) \<and>
       (is_space (hd a) \<longrightarrow> length a = 1 \<and> rest = []) \<and>
       (\<forall>m. 0 < m \<and> m < length a \<longrightarrow> \<not> prefix ''Q:'' (drop m (a @ rest))) \<and>
       parseFlashcards t = \<lparr>question = trim q, answer = trim a\<rparr> # parseFlashcards rest"
    by (elim exE)
  then have p: "parseFlashcards t = \<lparr>question = trim q, answer = trim a\<rparr> # parseFlashcards rest"
    by (elim conjE)
  from u have "t = pre @ ''Q:'' @ w1 @ q @ w2 @ ''A:'' @ w3 @ a @ rest \<and>
       (\<forall>n < length pre. \<not> unit_at_front (drop n t)) \<and>
       list_all is_space w1 \<and> list_all is_space w2 \<and> list_all is_space w3 \<and>
       q \<noteq> [] \<and> a \<noteq> [] \<and> (rest = [] \<or> prefix ''Q:'' rest) \<and>
       (\<forall>n. 0 < n \<and> list_all is_space (take n (q @ w2 @ ''A:'' @ w3 @ a @ rest)) \<longrightarrow>
          \<not> question_follows (drop n (q @ w2 @ ''A:'' @ w3 @ a @ rest))) \<and>
       (\<forall>m. 0 < m \<and> m < length q \<longrightarrow>
          \<not> answer_follows (drop m (q @ w2 @ ''A:'' @ w3 @ a @ rest))) \<and>
       (is_space (hd a) \<longrightarrow> length a = 1 \<and> rest = []) \<and>
       (\<forall>m. 0 < m \<and> m < length a \<longrightarrow> \<not> prefix ''Q:'' (drop m (a @ rest)))"
    by (elim conjE) (intro conjI)
  then have "first_unit t q a rest" unfolding first_unit_def by (intro exI)
  with p have "first_unit t q a rest \<and>
      parseFlashcards t = \<lparr>question = trim q, answer = trim a\<rparr> # parseFlashcards rest" by simp
  then show ?thesis by (intro exI)
qed

lemma parse_determined:
  assumes none: "\<And>t. f t = [] \<longleftrightarrow> (\<forall>n. \<not> unit_at_front (drop n t))"
    and some: "\<And>t. f t \<noteq> [] \<Longrightarrow> \<exists>q a rest. first_unit t q a rest \<and>
           f t = \<lparr>question = trim q, answer = trim a\<rparr> # f rest"
  shows "f t = parseFlashcards t"
proof (induction t rule: length_induct)
  case (1 t)
  show ?case
  proof (cases "parseFlashcards t = []")
    case True
    with parse_nothing [of t] have "\<forall>n. \<not> unit_at_front (drop n t)" by (rule iffD1)
    with none [of t] have "f t = []" by (rule iffD2)
    with True show ?thesis by simp
  next
    case False
    with parse_nothing [of t] have "\<not> (\<forall>n. \<not> unit_at_front (drop n t))" by blast
    with none [of t] have "f t \<noteq> []" by blast
    from some [OF this] obtain q' a' rest' where f: "first_unit t q' a' rest'"
      "f t = \<lparr>question = trim q', answer = trim a'\<rparr> # f rest'" by (elim exE conjE)
    from parse_first_unit_is [OF False] obtain q a rest where p: "first_unit t q a rest"
      "parseFlashcards t = \<lparr>question = trim q, answer = trim a\<rparr> # parseFlashcards rest"
      by (elim exE conjE)
    from first_unit_unique [OF p(1) f(1)] have e: "q = q'" "a = a'" "rest = rest'" by simp_all
    from first_unit_shorter [OF p(1)] 1 have "f rest = parseFlashcards rest" by simp
    with f(2) p(2) e show ?thesis by simp
  qed
qed

section \<open>Filtering by the length of the question\<close>

lemma spec_tokens_inside:
  "spec_token_count True s = spec_token_count True (dropWhile (\<lambda>c. \<not> is_space c) s)"
  by (induction s) simp_all

lemma spec_tokens_blank:
  "spec_token_count False s = spec_token_count False (dropWhile is_space s)"
  by (induction s) simp_all

lemma spec_tokens_after_blank:
  assumes "s \<noteq> []" and "is_space (hd s)"
  shows "spec_token_count b s = spec_token_count False (dropWhile is_space s)"
proof -
  from assms obtain c cs where s: "s = c # cs" "is_space c" by (cases s) auto
  then have "spec_token_count b s = spec_token_count False cs" by simp
  also have "\<dots> = spec_token_count False (dropWhile is_space cs)" by (rule spec_tokens_blank)
  finally show ?thesis using s by simp
qed

lemma tokenCount_step:
  "tokenCount s =
     (if takeWhile (\<lambda>c. \<not> is_space c) s \<noteq> [] then 1 else 0) +
     (if dropWhile (\<lambda>c. \<not> is_space c) s = [] then 0
      else tokenCount (dropWhile is_space (dropWhile (\<lambda>c. \<not> is_space c) s)))"
  unfolding tokenCount_def by (subst split_ws.simps) (simp add: Let_def)

lemma tokenCount_spec: "tokenCount s = spec_token_count False s"
proof (induction s rule: split_ws.induct)
  case (1 s)
  define tok where "tok = takeWhile (\<lambda>c. \<not> is_space c) s"
  define rest where "rest = dropWhile (\<lambda>c. \<not> is_space c) s"
  define more where "more = dropWhile is_space rest"
  have step: "tokenCount s = (if tok \<noteq> [] then 1 else 0) + (if rest = [] then 0 else tokenCount more)"
    unfolding tok_def rest_def more_def by (rule tokenCount_step)
  have front: "spec_token_count False s = 1 + spec_token_count True rest" if "tok \<noteq> []"
  proof -
    from that obtain c cs where s: "s = c # cs" "\<not> is_space c"
      unfolding tok_def by (cases s) (auto split: if_splits)
    then have "spec_token_count False s = 1 + spec_token_count True cs" by simp
    also have "spec_token_count True cs = spec_token_count True (dropWhile (\<lambda>c. \<not> is_space c) cs)"
      by (rule spec_tokens_inside)
    also have "dropWhile (\<lambda>c. \<not> is_space c) cs = rest" unfolding rest_def using s by simp
    finally show ?thesis .
  qed
  have none: "rest = s" if "tok = []"
    using that unfolding tok_def rest_def by (cases s) (auto split: if_splits)
  have ih: "tokenCount more = spec_token_count False more" if "rest \<noteq> []"
    using "1.IH" [OF tok_def rest_def that] unfolding more_def .
  have after: "spec_token_count b rest = spec_token_count False more" if "rest \<noteq> []" for b
  proof -
    from that have "\<not> \<not> is_space (hd rest)" unfolding rest_def by (rule hd_dropWhile)
    then have "is_space (hd rest)" by simp
    with that show ?thesis unfolding more_def by (rule spec_tokens_after_blank)
  qed
  show ?case
  proof (cases "rest = []")
    case True
    show ?thesis
    proof (cases "tok = []")
      case t: True
      with none True have "s = []" by simp
      then show ?thesis by (simp add: tokenCount_def split_ws.simps)
    next
      case False
      from front [OF False] have "spec_token_count False s = 1" using True by simp
      moreover from step have "tokenCount s = 1" using True False by simp
      ultimately show ?thesis by simp
    qed
  next
    case False
    show ?thesis
    proof (cases "tok = []")
      case True
      from step True False have "tokenCount s = tokenCount more" by simp
      also have "\<dots> = spec_token_count False more" using False by (rule ih)
      also have "\<dots> = spec_token_count False rest" using after [OF False, of False] by simp
      also have "rest = s" using True by (rule none)
      finally show ?thesis .
    next
      case nt: False
      from step nt False have "tokenCount s = 1 + tokenCount more" by simp
      also have "tokenCount more = spec_token_count False more" using False by (rule ih)
      also have "spec_token_count False more = spec_token_count True rest"
        using after [OF False, of True] by simp
      also have "1 + spec_token_count True rest = spec_token_count False s"
        using front [OF nt] by simp
      finally show ?thesis .
    qed
  qed
qed

lemma filterCards_iff:
  "fc \<in> set (filterCards cards) \<longleftrightarrow> fc \<in> set cards \<and> spec_token_count False (question fc) \<le> 29"
  by (auto simp: filterCards_def tokenCount_spec)

lemma generate_error:
  "receiveCards resp = Inl m \<Longrightarrow>
     generateFlashcards inexact subj prev resp (s, st) =
       (s\<lparr>loading := False, error := Some m, addingMore := False\<rparr>, st)"
  by (simp add: generateFlashcards_def)

lemma receive_parse_empty:
  "parseFlashcards reply = [] \<Longrightarrow> receiveCards (Body reply) = Inl parseError"
  by (simp add: receiveCards_def)

lemma receive_filter_empty:
  "parseFlashcards reply \<noteq> [] \<Longrightarrow> filterCards (parseFlashcards reply) = [] \<Longrightarrow>
     receiveCards (Body reply) = Inl filterError"
  by (simp add: receiveCards_def Let_def)

lemma errors_differ: "filterError \<noteq> parseError"
  by (simp add: filterError_def parseError_def)

lemma parse_thirty:
  "parseFlashcards thirty_reply = [\<lparr>question = thirty_words, answer = ''x''\<rparr>]"
  by (simp add: thirty_reply_def thirty_words_def parseFlashcards.simps flashcard_rx_def match_here_def
      is_space_def trim_def group_text_def)

lemma count_thirty: "spec_token_count False thirty_words = 30"
  by (simp add: thirty_words_def is_space_def)

lemma count_twenty_nine: "spec_token_count False twenty_nine_words = 29"
  by (simp add: twenty_nine_words_def is_space_def)

lemma parse_one: "parseFlashcards ''Q: x A: y'' = [\<lparr>question = ''x'', answer = ''y''\<rparr>]"
  by (simp add: parseFlashcards.simps flashcard_rx_def match_here_def is_space_def trim_def
      group_text_def)

lemma parse_none: "parseFlashcards ''no cards here'' = []"
  by (simp add: parseFlashcards.simps flashcard_rx_def match_here_def)

lemma receive_one: "receiveCards (Body ''Q: x A: y'') = Inr [\<lparr>question = ''x'', answer = ''y''\<rparr>]"
  by (simp add: receiveCards_def parse_one filterCards_def tokenCount_spec is_space_def)

lemma findIndex_None: "findIndex P xs = None \<longleftrightarrow> (\<forall>x\<in>set xs. \<not> P x)"
  by (induction xs) auto

lemma updateStoredSet_setItems:
  "setItems (updateStoredSet a cards st) =
     setItems st + (if a \<in> subject ` set (getStoredSets st) then 1 else 0)"
proof (cases "findIndex (\<lambda>x. subject x = a) (getStoredSets st)")
  case None
  then have "a \<notin> subject ` set (getStoredSets st)" by (auto simp: findIndex_None)
  with None show ?thesis by (simp add: updateStoredSet_def)
next
  case (Some idx)
  then have "\<not> (\<forall>x\<in>set (getStoredSets st). subject x \<noteq> a)"
    using findIndex_None [of "\<lambda>x. subject x = a" "getStoredSets st"] by simp
  then have "a \<in> subject ` set (getStoredSets st)" by auto
  with Some show ?thesis by (simp add: updateStoredSet_def saveStoredSets_def Let_def)
qed

lemma generate_initial:
  "receiveCards resp = Inr cards \<Longrightarrow>
     generateFlashcards inexact subj [] resp (s, st) =
       (let (uniqueSubject, st') = addStoredSet inexact subj cards st
        in (s\<lparr>loading := False, error := None, storedSets := getStoredSets st',
              st_subject := uniqueSubject, activeSubject := Some uniqueSubject,
              st_flashcards := cards, showGenerator := False, current := 0,
              showAnswer := False, switchAnimKey := switchAnimKey s + 1,
              addingMore := False\<rparr>, st'))"
  by (simp add: generateFlashcards_def Let_def split: prod.splits)

lemma generate_more_store:
  "receiveCards resp = Inr cards \<Longrightarrow> prev \<noteq> [] \<Longrightarrow>
     snd (generateFlashcards inexact subj prev resp (s, st)) =
       (case activeSubject s of
          None \<Rightarrow> st
        | Some a \<Rightarrow> if a \<noteq> [] then updateStoredSet a (st_flashcards s @ cards) st else st)"
  by (simp add: generateFlashcards_def Let_def split: prod.splits option.splits)

lemma generate_success_error:
  "receiveCards resp = Inr cards \<Longrightarrow> error (fst (generateFlashcards inexact subj prev resp (s, st))) = None"
  by (simp add: generateFlashcards_def Let_def split: prod.splits option.splits)

lemma generate_success_cards:
  "receiveCards resp = Inr cards \<Longrightarrow> prev \<noteq> [] \<Longrightarrow>
     st_flashcards (fst (generateFlashcards inexact subj prev resp (s, st))) = st_flashcards s @ cards"
  by (simp add: generateFlashcards_def Let_def split: prod.splits option.splits)

lemma parse_mixed:
  "parseFlashcards mixed_reply =
     [\<lparr>question = twenty_nine_words, answer = ''x''\<rparr>, \<lparr>question = thirty_words, answer = ''y''\<rparr>]"
  by (simp add: mixed_reply_def thirty_words_def twenty_nine_words_def parseFlashcards.simps
      flashcard_rx_def match_here_def is_space_def trim_def group_text_def)

lemma filterCards_eq:
  "filterCards cards = filter (\<lambda>c. spec_token_count False (question c) \<le> 29) cards"
  unfolding filterCards_def by (rule filter_cong) (auto simp: tokenCount_spec)

lemma receiveCards_Body:
  "receiveCards (Body reply) =
     (if parseFlashcards reply = [] then Inl parseError
      else if filterCards (parseFlashcards reply) = [] then Inl filterError
      else Inr (filterCards (parseFlashcards reply)))"
  by (simp add: receiveCards_def Let_def)

lemma generate_initial_cards:
  assumes "receiveCards resp = Inr cards"
  shows "st_flashcards (fst (generateFlashcards inexact subj [] resp (s, st))) = cards"
    and "getStoredSets (snd (generateFlashcards inexact subj [] resp (s, st))) =
       \<lparr>subject = st_subject (fst (generateFlashcards inexact subj [] resp (s, st))),
        flashcards = cards\<rparr> # getStoredSets st"
    and "st_subject (fst (generateFlashcards inexact subj [] resp (s, st))) =
       getUniqueSubjectName inexact subj (getStoredSets st)"
  using assms
  by (simp_all add: generate_initial addStoredSet_def saveStoredSets_def getStoredSets_def Let_def)

text \<open>
  Claim C4. The count that \<^verbatim>\<open>split(/\s+/).filter(Boolean).length\<close> computes is the
  number of white-space-delimited tokens, and the filter keeps, in their order, exactly the
  cards whose question has at most 29 of them: a question of 30 or more tokens is dropped.
  A reply without cards ends the call with the error text of the parser, a reply whose
  cards are all dropped with the error text of the filter, and the two texts differ. In
  every other case the call succeeds with the filtered cards and nothing else: a first
  generation shows them and stores them as the new set, a continuation appends them to the
  cards of the session and stores the result under the active subject.
\<close>

theorem filter_by_question_tokens:
  "tokenCount q = spec_token_count False q \<and>
   filterCards cards = filter (\<lambda>c. spec_token_count False (question c) \<le> 29) cards \<and>
   (fc \<in> set (filterCards cards) \<longleftrightarrow>
      fc \<in> set cards \<and> spec_token_count False (question fc) \<le> 29) \<and>
   receiveCards (Body reply) =
     (if parseFlashcards reply = [] then Inl parseError
      else if filterCards (parseFlashcards reply) = [] then Inl filterError
      else Inr (filterCards (parseFlashcards reply))) \<and>
   (parseFlashcards reply \<noteq> [] \<and> filterCards (parseFlashcards reply) = [] \<longrightarrow>
      error (fst (generateFlashcards inexact subj prev (Body reply) (s, st))) = Some filterError) \<and>
   (parseFlashcards reply = [] \<longrightarrow>
      error (fst (generateFlashcards inexact subj prev (Body reply) (s, st))) = Some parseError) \<and>
   (filterCards (parseFlashcards reply) \<noteq> [] \<and> prev = [] \<longrightarrow>
      error (fst (generateFlashcards inexact subj prev (Body reply) (s, st))) = None \<and>
      st_flashcards (fst (generateFlashcards inexact subj prev (Body reply) (s, st))) =
        filterCards (parseFlashcards reply) \<and>
      getStoredSets (snd (generateFlashcards inexact subj prev (Body reply) (s, st))) =
        \<lparr>subject = getUniqueSubjectName inexact subj (getStoredSets st),
         flashcards = filterCards (parseFlashcards reply)\<rparr> # getStoredSets st) \<and>
   (filterCards (parseFlashcards reply) \<noteq> [] \<and> prev \<noteq> [] \<longrightarrow>
      error (fst (generateFlashcards inexact subj prev (Body reply) (s, st))) = None \<and>
      st_flashcards (fst (generateFlashcards inexact subj prev (Body reply) (s, st))) =
        st_flashcards s @ filterCards (parseFlashcards reply) \<and>
      snd (generateFlashcards inexact subj prev (Body reply) (s, st)) =
        (case activeSubject s of
           None \<Rightarrow> st
         | Some a \<Rightarrow>
             if a \<noteq> []
             then updateStoredSet a (st_flashcards s @ filterCards (parseFlashcards reply)) st
             else st)) \<and>
   filterError \<noteq> parseError"
proof -
  have ok: "receiveCards (Body reply) = Inr (filterCards (parseFlashcards reply))"
    if "filterCards (parseFlashcards reply) \<noteq> []"
  proof -
    from that have "parseFlashcards reply \<noteq> []" by (auto simp: filterCards_def)
    with that show ?thesis by (simp add: receiveCards_Body)
  qed
  have first: "error (fst (generateFlashcards inexact subj prev (Body reply) (s, st))) = None \<and>
      st_flashcards (fst (generateFlashcards inexact subj prev (Body reply) (s, st))) =
        filterCards (parseFlashcards reply) \<and>
      getStoredSets (snd (generateFlashcards inexact subj prev (Body reply) (s, st))) =
        \<lparr>subject = getUniqueSubjectName inexact subj (getStoredSets st),
         flashcards = filterCards (parseFlashcards reply)\<rparr> # getStoredSets st"
    if "filterCards (parseFlashcards reply) \<noteq> [] \<and> prev = []"
    using ok that generate_initial_cards [of "Body reply" "filterCards (parseFlashcards reply)" inexact subj s st]
    by (simp add: generate_success_error)
  have more: "error (fst (generateFlashcards inexact subj prev (Body reply) (s, st))) = None \<and>
      st_flashcards (fst (generateFlashcards inexact subj prev (Body reply) (s, st))) =
        st_flashcards s @ filterCards (parseFlashcards reply) \<and>
      snd (generateFlashcards inexact subj prev (Body reply) (s, st)) =
        (case activeSubject s of
           None \<Rightarrow> st
         | Some a \<Rightarrow>
             if a \<noteq> []
             then updateStoredSet a (st_flashcards s @ filterCards (parseFlashcards reply)) st
             else st)"
    if "filterCards (parseFlashcards reply) \<noteq> [] \<and> prev \<noteq> []"
    using ok that by (simp add: generate_success_error generate_success_cards generate_more_store)
  have fails: "(parseFlashcards reply \<noteq> [] \<and> filterCards (parseFlashcards reply) = [] \<longrightarrow>
      error (fst (generateFlashcards inexact subj prev (Body reply) (s, st))) = Some filterError) \<and>
   (parseFlashcards reply = [] \<longrightarrow>
      error (fst (generateFlashcards inexact subj prev (Body reply) (s, st))) = Some parseError)"
    by (simp add: generate_error receive_parse_empty receive_filter_empty)
  from first more fails show ?thesis
    using tokenCount_spec [of q] filterCards_eq [of cards] filterCards_iff [of fc cards]
      receiveCards_Body [of reply] errors_differ
    by blast
qed

theorem filter_by_question_tokens_witness:
  "parseFlashcards thirty_reply \<noteq> [] \<and>
   filterCards (parseFlashcards thirty_reply) = [] \<and>
   error (fst (generateFlashcards unreached ''Words'' [] (Body thirty_reply)
     (browsing, two_sets))) = Some filterError \<and>
   parseFlashcards ''no cards here'' = [] \<and>
   error (fst (generateFlashcards unreached ''Words'' [] (Body ''no cards here'') (browsing, two_sets)))
     = Some parseError \<and>
   parseFlashcards mixed_reply =
     [\<lparr>question = twenty_nine_words, answer = ''x''\<rparr>, \<lparr>question = thirty_words, answer = ''y''\<rparr>] \<and>
   filterCards (parseFlashcards mixed_reply) = [\<lparr>question = twenty_nine_words, answer = ''x''\<rparr>] \<and>
   st_flashcards (fst (generateFlashcards unreached ''Words'' [] (Body mixed_reply) (browsing, two_sets)))
     = [\<lparr>question = twenty_nine_words, answer = ''x''\<rparr>] \<and>
   getStoredSets (snd (generateFlashcards unreached ''Words'' [] (Body mixed_reply) (browsing, two_sets)))
     = \<lparr>subject = ''Words'', flashcards = [\<lparr>question = twenty_nine_words, answer = ''x''\<rparr>]\<rparr>
         # getStoredSets two_sets \<and>
   st_flashcards (fst (generateFlashcards unreached ''Math'' [''q1'', ''q2'', ''q3'']
       (Body mixed_reply) (browsing, two_sets)))
     = three_cards @ [\<lparr>question = twenty_nine_words, answer = ''x''\<rparr>]"
proof -
  have a: "parseFlashcards thirty_reply \<noteq> []" by (simp only: parse_thirty) simp
  have b: "filterCards (parseFlashcards thirty_reply) = []"
    by (simp only: parse_thirty) (simp add: filterCards_def tokenCount_spec count_thirty)
  have c: "filterCards (parseFlashcards mixed_reply) = [\<lparr>question = twenty_nine_words, answer = ''x''\<rparr>]"
    by (simp only: parse_mixed) (simp add: filterCards_def tokenCount_spec count_thirty count_twenty_nine)
  have n: "getUniqueSubjectName unreached ''Words'' (getStoredSets two_sets) = ''Words''"
    by (simp add: getUniqueSubjectName_def getStoredSets_def two_sets_def scanSubject_def
        subject_rx_def match_here_def)
  have cards: "st_flashcards browsing = three_cards" by (simp add: browsing_def)
  from a b c n cards parse_none parse_mixed
    filter_by_question_tokens [where reply = thirty_reply and inexact = unreached
      and subj = "''Words''" and prev = "[]" and s = browsing and st = two_sets]
    filter_by_question_tokens [where reply = "''no cards here''" and inexact = unreached
      and subj = "''Words''" and prev = "[]" and s = browsing and st = two_sets]
    filter_by_question_tokens [where reply = mixed_reply and inexact = unreached
      and subj = "''Words''" and prev = "[]" and s = browsing and st = two_sets]
    filter_by_question_tokens [where reply = mixed_reply and inexact = unreached
      and subj = "''Math''" and prev = "[''q1'', ''q2'', ''q3'']" and s = browsing and st = two_sets]
  show ?thesis by simp
qed

section \<open>A call of \<^verbatim>\<open>generateFlashcards\<close> and the store\<close>

text \<open>
  Claim C5. When the reply yields no card, or none that passes the filter, the call leaves
  the store and the cards as they were: the state after it is the state before with the
  error text set and the two in-flight flags \<^verbatim>\<open>loading\<close> and \<^verbatim>\<open>addingMore\<close> lowered.
  From a state in which no call is in flight nothing but the error changes, for the call
  itself as for \<^verbatim>\<open>handleAddMore\<close>, which raises \<^verbatim>\<open>addingMore\<close> before it calls.
\<close>

theorem failed_generate_changes_error_only:
  assumes "parseFlashcards reply = [] \<or> filterCards (parseFlashcards reply) = []"
  shows "\<exists>m. (m = parseError \<or> m = filterError) \<and>
     snd (generateFlashcards inexact subj prev (Body reply) (s, st)) = st \<and>
     st_flashcards (fst (generateFlashcards inexact subj prev (Body reply) (s, st))) = st_flashcards s \<and>
     fst (generateFlashcards inexact subj prev (Body reply) (s, st)) =
       s\<lparr>loading := False, error := Some m, addingMore := False\<rparr> \<and>
     (\<not> loading s \<and> \<not> addingMore s \<longrightarrow>
        generateFlashcards inexact subj prev (Body reply) (s, st) = (s\<lparr>error := Some m\<rparr>, st) \<and>
        handleAddMore inexact (Body reply) (s, st) = (s\<lparr>error := Some m\<rparr>, st))"
proof -
  have "receiveCards (Body reply) = Inl parseError \<or> receiveCards (Body reply) = Inl filterError"
    using assms receive_parse_empty [of reply] receive_filter_empty [of reply] by blast
  then obtain m where m: "m = parseError \<or> m = filterError" "receiveCards (Body reply) = Inl m"
    by blast
  have g: "generateFlashcards inexact subj' prev' (Body reply) (s', st) =
      (s'\<lparr>loading := False, error := Some m, addingMore := False\<rparr>, st)" for subj' prev' s'
    using m(2) by (rule generate_error)
  have idle: "s\<lparr>loading := False, error := Some m, addingMore := False\<rparr> = s\<lparr>error := Some m\<rparr>"
    if "\<not> loading s \<and> \<not> addingMore s"
    using that by (cases s) simp
  have more: "handleAddMore inexact (Body reply) (s, st) = (s\<lparr>error := Some m\<rparr>, st)"
    if "\<not> loading s \<and> \<not> addingMore s"
    using that by (cases s) (simp add: handleAddMore_def g)
  from m(1) g [of subj prev s] idle more show ?thesis by auto
qed

theorem failed_generate_changes_error_only_witness:
  "filterCards (parseFlashcards thirty_reply) = [] \<and>
   handleAddMore unreached (Body thirty_reply) (browsing, two_sets)
     = (browsing\<lparr>error := Some filterError\<rparr>, two_sets) \<and>
   parseFlashcards ''no cards here'' = [] \<and>
   handleAddMore unreached (Body ''no cards here'') (browsing, two_sets)
     = (browsing\<lparr>error := Some parseError\<rparr>, two_sets)"
proof -
  have b: "filterCards (parseFlashcards thirty_reply) = []"
    by (simp only: parse_thirty) (simp add: filterCards_def tokenCount_spec count_thirty)
  have i: "\<not> loading browsing \<and> \<not> addingMore browsing" by (simp add: browsing_def)
  have "parseFlashcards thirty_reply \<noteq> []" by (simp only: parse_thirty) simp
  then have "receiveCards (Body thirty_reply) = Inl filterError"
    using b by (rule receive_filter_empty)
  then have f: "error (fst (handleAddMore unreached (Body thirty_reply) (browsing, two_sets))) = Some filterError"
    by (simp add: handleAddMore_def generate_error)
  have "receiveCards (Body ''no cards here'') = Inl parseError"
    using parse_none by (rule receive_parse_empty)
  then have p: "error (fst (handleAddMore unreached (Body ''no cards here'') (browsing, two_sets))) = Some parseError"
    by (simp add: handleAddMore_def generate_error)
  from failed_generate_changes_error_only [where reply = thirty_reply and inexact = unreached
      and subj = "''Math''" and prev = "[]" and s = browsing and st = two_sets] b i f
  have 1: "handleAddMore unreached (Body thirty_reply) (browsing, two_sets)
     = (browsing\<lparr>error := Some filterError\<rparr>, two_sets)" by auto
  from failed_generate_changes_error_only [where reply = "''no cards here''" and inexact = unreached
      and subj = "''Math''" and prev = "[]" and s = browsing and st = two_sets]
    parse_none i p
  have 2: "handleAddMore unreached (Body ''no cards here'') (browsing, two_sets)
     = (browsing\<lparr>error := Some parseError\<rparr>, two_sets)" by auto
  from 1 2 b parse_none show ?thesis by simp
qed

text \<open>
  Claim C6, as the code has it. A call that fails leaves the store as it was. A first
  generation that succeeds writes the store once. A continuation that succeeds writes it
  once when the active subject is a non-empty text that names a stored set, and not at all
  otherwise: \<^verbatim>\<open>updateStoredSet\<close> does nothing for a subject it does not find.
\<close>

theorem store_writes_per_generate:
  "(receiveCards resp = Inl m \<longrightarrow>
      error (fst (generateFlashcards inexact subj prev resp (s, st))) = Some m \<and>
      snd (generateFlashcards inexact subj prev resp (s, st)) = st) \<and>
   (receiveCards resp = Inr cards \<and> prev = [] \<longrightarrow>
      error (fst (generateFlashcards inexact subj prev resp (s, st))) = None \<and>
      setItems (snd (generateFlashcards inexact subj prev resp (s, st))) = setItems st + 1) \<and>
   (receiveCards resp = Inr cards \<and> prev \<noteq> [] \<longrightarrow>
      error (fst (generateFlashcards inexact subj prev resp (s, st))) = None \<and>
      setItems (snd (generateFlashcards inexact subj prev resp (s, st))) =
        setItems st +
        (case activeSubject s of
           None \<Rightarrow> 0
         | Some a \<Rightarrow> if a \<noteq> [] \<and> a \<in> subject ` set (getStoredSets st) then 1 else 0))"
proof (intro conjI impI)
  assume "receiveCards resp = Inl m"
  then show "error (fst (generateFlashcards inexact subj prev resp (s, st))) = Some m"
    and "snd (generateFlashcards inexact subj prev resp (s, st)) = st"
    by (simp_all add: generate_error)
next
  assume a: "receiveCards resp = Inr cards \<and> prev = []"
  then show "error (fst (generateFlashcards inexact subj prev resp (s, st))) = None"
    by (simp add: generate_success_error)
  from a show "setItems (snd (generateFlashcards inexact subj prev resp (s, st))) = setItems st + 1"
    by (simp add: generate_initial addStoredSet_def saveStoredSets_def Let_def)
next
  assume a: "receiveCards resp = Inr cards \<and> prev \<noteq> []"
  then show "error (fst (generateFlashcards inexact subj prev resp (s, st))) = None"
    by (simp add: generate_success_error)
  from a show "setItems (snd (generateFlashcards inexact subj prev resp (s, st))) =
        setItems st +
        (case activeSubject s of
           None \<Rightarrow> 0
         | Some a \<Rightarrow> if a \<noteq> [] \<and> a \<in> subject ` set (getStoredSets st) then 1 else 0)"
    by (simp add: generate_more_store updateStoredSet_setItems split: option.splits)
qed

theorem store_writes_per_generate_witness:
  "receiveCards NotOk = Inl ''Failed to fetch flashcards from Gemini'' \<and>
   snd (generateFlashcards unreached ''Math'' [] NotOk (browsing, two_sets)) = two_sets \<and>
   receiveCards (Body ''Q: x A: y'') = Inr [\<lparr>question = ''x'', answer = ''y''\<rparr>] \<and>
   setItems (snd (generateFlashcards unreached ''Math'' [] (Body ''Q: x A: y'') (browsing, two_sets))) = 1 \<and>
   setItems (snd (generateFlashcards unreached ''Math'' [''q1'', ''q2'', ''q3''] (Body ''Q: x A: y'')
     (browsing, two_sets))) = 1"
proof -
  have a: "receiveCards NotOk = Inl ''Failed to fetch flashcards from Gemini''"
    by (simp add: receiveCards_def)
  have b: "setItems two_sets = 0" "activeSubject browsing = Some ''Math''"
    "''Math'' \<in> subject ` set (getStoredSets two_sets)"
    by (simp_all add: two_sets_def browsing_def getStoredSets_def)
  from a b receive_one
    store_writes_per_generate [where resp = NotOk and m = "''Failed to fetch flashcards from Gemini''"
      and inexact = unreached and subj = "''Math''" and prev = "[]" and s = browsing
      and st = two_sets]
    store_writes_per_generate [where resp = "Body ''Q: x A: y''" and inexact = unreached
      and subj = "''Math''" and prev = "[]" and s = browsing and st = two_sets
      and cards = "[\<lparr>question = ''x'', answer = ''y''\<rparr>]"]
    store_writes_per_generate [where resp = "Body ''Q: x A: y''" and inexact = unreached
      and subj = "''Math''" and prev = "[''q1'', ''q2'', ''q3'']" and s = browsing
      and st = two_sets and cards = "[\<lparr>question = ''x'', answer = ''y''\<rparr>]"]
  show ?thesis by simp
qed

text \<open>
  Claim C6 fails as it is stated: a continuation for the active subject \<open>Math\<close>, at a
  moment when the store holds no set of that name, succeeds, appends the new card to the
  session and writes nothing.
\<close>

theorem continuation_without_store_write_counterexample:
  "error (fst (generateFlashcards unreached ''Math'' [''q1'', ''q2'', ''q3''] (Body ''Q: x A: y'')
     (browsing, no_sets))) = None \<and>
   st_flashcards (fst (generateFlashcards unreached ''Math'' [''q1'', ''q2'', ''q3''] (Body ''Q: x A: y'')
     (browsing, no_sets))) = three_cards @ [\<lparr>question = ''x'', answer = ''y''\<rparr>] \<and>
   snd (generateFlashcards unreached ''Math'' [''q1'', ''q2'', ''q3''] (Body ''Q: x A: y'')
     (browsing, no_sets)) = no_sets \<and>
   setItems (snd (generateFlashcards unreached ''Math'' [''q1'', ''q2'', ''q3''] (Body ''Q: x A: y'')
     (browsing, no_sets))) = setItems no_sets"
proof -
  have "snd (generateFlashcards unreached ''Math'' [''q1'', ''q2'', ''q3''] (Body ''Q: x A: y'')
     (browsing, no_sets)) = no_sets"
    using receive_one
    by (simp add: generate_more_store browsing_def updateStoredSet_def getStoredSets_def no_sets_def)
  moreover have "st_flashcards (fst (generateFlashcards unreached ''Math'' [''q1'', ''q2'', ''q3'']
     (Body ''Q: x A: y'') (browsing, no_sets))) = three_cards @ [\<lparr>question = ''x'', answer = ''y''\<rparr>]"
    using receive_one by (simp add: generate_success_cards browsing_def)
  ultimately show ?thesis using receive_one by (simp add: generate_success_error)
qed

section \<open>Unique subject names\<close>

text \<open>
  While every suffix read from the store is below \<open>2 ^ 53\<close>, the name that
  \<^verbatim>\<open>getUniqueSubjectName\<close> returns is the subject of no stored set: a set named
  \<open>base\<close> raises \<^verbatim>\<open>foundBase\<close>, and a set named \<open>base(n)\<close> lifts
  \<^verbatim>\<open>maxIndex\<close> to \<open>n\<close> at least. So \<^verbatim>\<open>addStoredSet\<close> keeps the subjects pairwise
  distinct there. Nothing is said for suffixes from \<open>2 ^ 53\<close> on, where doubles round.
\<close>

lemma rmatch_Star_all:
  assumes "list_all (in_cls cl) w" and "r = [] \<or> \<not> in_cls cl (hd r)" and "k r c = Some res"
  shows "rmatch (Star cl) (w @ r) c k = Some res"
  using assms
proof (induction w)
  case Nil
  then show ?case by (cases r) auto
next
  case (Cons x w)
  then show ?case by simp
qed

lemma rmatch_Group_Plus_all:
  assumes "ds \<noteq> []" and "list_all (in_cls cl) ds" and "r = [] \<or> \<not> in_cls cl (hd r)"
    and "k r (c(n \<mapsto> ds)) = Some res"
  shows "rmatch (Group n (Plus cl)) (ds @ r) c k = Some res"
proof -
  from assms(1,2) obtain d ds' where ds: "ds = d # ds'" "in_cls cl d" "list_all (in_cls cl) ds'"
    by (cases ds) auto
  let ?k = "\<lambda>s' c'. k s' (c'(n \<mapsto> take (length (ds @ r) - length s') (ds @ r)))"
  from assms(4) have "?k r c = Some res" by simp
  with ds(3) assms(3) have "rmatch (Star cl) (ds' @ r) c ?k = Some res"
    by (rule rmatch_Star_all)
  with ds(2) have "rmatch (Plus cl) ((d # ds') @ r) c ?k = Some res" by simp
  then show ?thesis unfolding ds(1) by (simp only: rmatch.simps)
qed

lemma rmatch_Seq_Group_Plus_all:
  assumes "ds \<noteq> []" and "list_all (in_cls cl) ds" and "r = [] \<or> \<not> in_cls cl (hd r)"
    and "rmatch r2 r (c(n \<mapsto> ds)) k = Some res"
  shows "rmatch (Seq (Group n (Plus cl)) r2) (ds @ r) c k = Some res"
proof -
  have "rmatch (Group n (Plus cl)) (ds @ r) c (\<lambda>s' c'. rmatch r2 s' c' k) = Some res"
    using assms by (rule rmatch_Group_Plus_all)
  then show ?thesis by (simp only: rmatch.simps)
qed

lemma rmatch_Seq_Opt_taken:
  "rmatch (Seq r1 r2) s c k = Some res \<Longrightarrow> rmatch (Seq (Opt r1) r2) s c k = Some res"
  by simp

lemma match_subject_base: "match_here (subject_rx base) base = Some ([], Map.empty)"
  by (simp add: match_here_def subject_rx_def)

lemma match_subject_suffixed:
  assumes "ds \<noteq> []" and "list_all is_digit ds"
  shows "match_here (subject_rx base) (base @ ''('' @ ds @ '')'') = Some ([], [1 \<mapsto> ds])"
proof -
  let ?k0 = "\<lambda>s' (c' :: captures). Some (s', c')"
  have digs: "list_all (in_cls Digit) ds" using assms(2) by (simp add: list_all_iff)
  have "rmatch (Seq (Lit '')'') End) '')'' [1 \<mapsto> ds] ?k0 = Some ([], [1 \<mapsto> ds])" by simp
  moreover have "'')'' = [] \<or> \<not> in_cls Digit (hd '')'')" by (simp add: is_digit_def)
  ultimately have "rmatch (Seq (Group 1 (Plus Digit)) (Seq (Lit '')'') End)) (ds @ '')'') Map.empty ?k0
      = Some ([], [1 \<mapsto> ds])"
    using assms(1) digs by (intro rmatch_Seq_Group_Plus_all)
  then have "rmatch (Seq (Lit ''('') (Seq (Group 1 (Plus Digit)) (Seq (Lit '')'') End)))
      (''('' @ ds @ '')'') Map.empty ?k0 = Some ([], [1 \<mapsto> ds])"
    by (simp only: rmatch_Seq_Lit_append)
  then have "rmatch (Seq (Seq (Lit ''('') (Seq (Group 1 (Plus Digit)) (Lit '')''))) End)
      (''('' @ ds @ '')'') Map.empty ?k0 = Some ([], [1 \<mapsto> ds])"
    by (simp only: rmatch.simps(10))
  then have "rmatch (Seq (Opt (Seq (Lit ''('') (Seq (Group 1 (Plus Digit)) (Lit '')'')))) End)
      (''('' @ ds @ '')'') Map.empty ?k0 = Some ([], [1 \<mapsto> ds])"
    by (rule rmatch_Seq_Opt_taken)
  then show ?thesis
    by (simp only: match_here_def subject_rx_def rmatch_Seq_Lit_append)
qed

lemma digit_char_ok:
  assumes "0 \<le> d" and "d < 10"
  shows "is_digit (digit_char d) \<and> digit_value (digit_char d) = d"
proof -
  from assms have "d = 0 \<or> d = 1 \<or> d = 2 \<or> d = 3 \<or> d = 4 \<or> d = 5 \<or> d = 6 \<or> d = 7 \<or> d = 8 \<or> d = 9"
    by arith
  then show ?thesis
    by (elim disjE) (simp_all add: digit_char_def is_digit_def digit_value_def)
qed

lemma digits_props:
  "0 \<le> n \<Longrightarrow>
     digits n \<noteq> [] \<and> list_all is_digit (digits n) \<and>
     foldl (\<lambda>acc d. 10 * acc + digit_value d) 0 (digits n) = n"
proof (induction n rule: digits.induct)
  case (1 n)
  show ?case
  proof (cases "n < 10")
    case True
    with "1.prems" digit_char_ok [of n] show ?thesis by (simp add: digits.simps)
  next
    case False
    then have d: "digits n = digits (n div 10) @ [digit_char (n mod 10)]"
      by (subst digits.simps) simp
    from "1.prems" have "0 \<le> n div 10" by simp
    with "1.IH" False have ih: "digits (n div 10) \<noteq> []" "list_all is_digit (digits (n div 10))"
      "foldl (\<lambda>acc d. 10 * acc + digit_value d) 0 (digits (n div 10)) = n div 10"
      by simp_all
    have "0 \<le> n mod 10" "n mod 10 < 10" by simp_all
    with digit_char_ok [of "n mod 10"] have m: "is_digit (digit_char (n mod 10))"
      "digit_value (digit_char (n mod 10)) = n mod 10" by simp_all
    from ih m show ?thesis unfolding d by simp
  qed
qed

lemma parseInt_digits: "0 \<le> n \<Longrightarrow> parseInt (digits n) = Some n"
proof -
  assume n: "0 \<le> n"
  from digits_props [OF n] have p: "digits n \<noteq> []" "list_all is_digit (digits n)"
    "foldl (\<lambda>acc d. 10 * acc + digit_value d) 0 (digits n) = n" by simp_all
  from p(2) have tw: "takeWhile is_digit (digits n) = digits n"
    by (simp add: list_all_iff)
  show ?thesis unfolding parseInt_def Let_def tw using p(1,3) by simp
qed

lemma scan_base:
  "subject x = base \<Longrightarrow> scanSubject (subject_rx base) x (mx, fb) = (mx, True)"
  using match_subject_base [of base] by (simp add: scanSubject_def)

lemma scan_suffixed:
  assumes "subject x = base @ ''('' @ digits n @ '')''" and "0 \<le> n"
  shows "scanSubject (subject_rx base) x (mx, fb) = (if n > mx then n else mx, fb)"
proof -
  from digits_props [OF assms(2)] have p: "digits n \<noteq> []" "list_all is_digit (digits n)"
    by simp_all
  from match_subject_suffixed [OF p, of base] assms(1)
  have "match_here (subject_rx base) (subject x) = Some ([], [1 \<mapsto> digits n])" by simp
  with p(1) parseInt_digits [OF assms(2)] show ?thesis by (simp add: scanSubject_def)
qed

lemma scan_mono:
  "scanSubject r x (mx, fb) = (mx', fb') \<Longrightarrow> mx \<le> mx' \<and> (fb \<longrightarrow> fb')"
  by (auto simp: scanSubject_def split: option.splits if_splits prod.splits)

lemma fold_scan_mono:
  "fold (scanSubject r) sets (mx, fb) = (mx', fb') \<Longrightarrow> mx \<le> mx' \<and> (fb \<longrightarrow> fb')"
proof (induction sets arbitrary: mx fb)
  case Nil
  then show ?case by simp
next
  case (Cons x sets)
  obtain mx1 fb1 where s: "scanSubject r x (mx, fb) = (mx1, fb1)" by (cases "scanSubject r x (mx, fb)")
  with Cons.prems have "fold (scanSubject r) sets (mx1, fb1) = (mx', fb')" by simp
  from Cons.IH [OF this] scan_mono [OF s] show ?case by auto
qed

lemma fold_scan_found:
  assumes "x \<in> set sets" and "subject x = base"
  shows "snd (fold (scanSubject (subject_rx base)) sets acc)"
  using assms(1)
proof (induction sets arbitrary: acc)
  case Nil
  then show ?case by simp
next
  case (Cons y sets)
  obtain mx fb where acc: "acc = (mx, fb)" by (cases acc)
  show ?case
  proof (cases "x = y")
    case True
    with assms(2) acc have s: "scanSubject (subject_rx base) y acc = (mx, True)"
      by (simp add: scan_base)
    obtain mx' fb' where f: "fold (scanSubject (subject_rx base)) sets (mx, True) = (mx', fb')"
      by (cases "fold (scanSubject (subject_rx base)) sets (mx, True)")
    from fold_scan_mono [OF f] have fb' by simp
    with s f show ?thesis by simp
  next
    case False
    with Cons.prems have "x \<in> set sets" by simp
    from Cons.IH [OF this] show ?thesis by simp
  qed
qed

lemma fold_scan_max:
  assumes "x \<in> set sets" and "subject x = base @ ''('' @ digits n @ '')''" and "0 \<le> n"
  shows "n \<le> fst (fold (scanSubject (subject_rx base)) sets acc)"
  using assms(1)
proof (induction sets arbitrary: acc)
  case Nil
  then show ?case by simp
next
  case (Cons y sets)
  obtain mx fb where acc: "acc = (mx, fb)" by (cases acc)
  show ?case
  proof (cases "x = y")
    case True
    with assms(2,3) acc have s: "scanSubject (subject_rx base) y acc = (if n > mx then n else mx, fb)"
      by (simp add: scan_suffixed)
    obtain mx' fb' where f: "fold (scanSubject (subject_rx base)) sets (if n > mx then n else mx, fb)
        = (mx', fb')"
      by (cases "fold (scanSubject (subject_rx base)) sets (if n > mx then n else mx, fb)")
    from fold_scan_mono [OF f] have "n \<le> mx'" by (simp split: if_splits)
    with s f show ?thesis by simp
  next
    case False
    with Cons.prems have "x \<in> set sets" by simp
    from Cons.IH [OF this] show ?thesis by simp
  qed
qed

lemma getUniqueSubjectName_fresh:
  assumes "exactSuffixes base sets"
  shows "getUniqueSubjectName inexact base sets \<notin> subject ` set sets"
proof
  assume a: "getUniqueSubjectName inexact base sets \<in> subject ` set sets"
  then obtain x where x: "x \<in> set sets" "subject x = getUniqueSubjectName inexact base sets" by auto
  obtain mx fb where f: "fold (scanSubject (subject_rx base)) sets (- 1, False) = (mx, fb)"
    by (cases "fold (scanSubject (subject_rx base)) sets (- 1, False)")
  from fold_scan_mono [OF f] have mx: "0 \<le> mx + 1" by simp
  show False
  proof (cases fb)
    case False
    with f have "getUniqueSubjectName inexact base sets = base" by (simp add: getUniqueSubjectName_def)
    with x have "snd (fold (scanSubject (subject_rx base)) sets (- 1, False))"
      by (intro fold_scan_found [of x]) simp_all
    with f False show False by simp
  next
    case True
    with f mx assms
    have "getUniqueSubjectName inexact base sets = base @ ''('' @ digits (mx + 1) @ '')''"
      by (simp add: getUniqueSubjectName_def number_text_def)
    with x mx have "mx + 1 \<le> fst (fold (scanSubject (subject_rx base)) sets (- 1, False))"
      by (intro fold_scan_max [of x]) simp_all
    with f show False by simp
  qed
qed

lemma addStoredSet_distinct:
  assumes "exactSuffixes base (getStoredSets st)" and "distinct (map subject (getStoredSets st))"
  shows "distinct (map subject (getStoredSets (snd (addStoredSet inexact base cards st))))"
  using assms(2) getUniqueSubjectName_fresh [OF assms(1), of inexact]
  by (simp add: addStoredSet_def saveStoredSets_def getStoredSets_def Let_def)

text \<open>
  Claim C1, at the input of the claim. From a store without sets, three calls of
  \<^verbatim>\<open>addStoredSet\<close> for \<open>Math\<close> return \<open>Math\<close>, \<open>Math(0)\<close> and \<open>Math(1)\<close>:
  \<^verbatim>\<open>maxIndex\<close> starts at \<open>-1\<close>, so the first suffix is \<open>0\<close>, where the claim
  says \<open>Math(1)\<close> and \<open>Math(2)\<close>.
\<close>

theorem add_math_three_times:
  "(let (n1, st1) = addStoredSet inexact ''Math'' cards no_sets;
        (n2, st2) = addStoredSet inexact ''Math'' cards st1;
        (n3, st3) = addStoredSet inexact ''Math'' cards st2
    in (n1, n2, n3, map subject (getStoredSets st3)))
   = (''Math'', ''Math(0)'', ''Math(1)'', [''Math(1)'', ''Math(0)'', ''Math''])"
  by (simp add: addStoredSet_def getStoredSets_def saveStoredSets_def no_sets_def
      getUniqueSubjectName_def exactSuffixes_def suffixOf_def exactly_held_def scanSubject_def
      subject_rx_def match_here_def parseInt_def is_digit_def digit_value_def number_text_def
      digits.simps digit_char_def Let_def)

end
